theory Spec2Isabelle
  imports Main "HOL-Library.Word" "HOL-Library.Sublist"
begin

section \<open>The eos::String class of contracts/eoslib/string.hpp\<close>

text \<open>
  \<open>eos::String\<close> is a byte buffer that either borrows caller memory or owns a
  \<open>malloc\<close>ed block shared through a manually managed reference counter. The class
  is embedded with an explicit store: String objects live at object addresses, character
  data lives in blocks, counters live in cells. Every assertion failure and every invalid
  memory access of the C++ code is a value of type \<open>error\<close>.
\<close>

subsection \<open>Machine types, pointers and the store\<close>

type_synonym u8 = "8 word"
type_synonym u32 = "32 word"

text \<open>A \<open>char*\<close> is a block together with an offset into it; pointer arithmetic moves
  the offset and never leaves the block. The null pointer is offset 0 of block 0.\<close>

datatype ptr = Ptr (blk: nat) (off: nat)

definition nullptr :: ptr where
  "nullptr = Ptr 0 0"

definition ptr_add :: "ptr \<Rightarrow> nat \<Rightarrow> ptr" where
  "ptr_add p n = Ptr (blk p) (off p + n)"

definition ptr_sub :: "ptr \<Rightarrow> nat \<Rightarrow> ptr" where
  "ptr_sub p n = Ptr (blk p) (off p - n)"

text \<open>The four private members of the class. \<open>refcount\<close> is \<open>None\<close> for the null
  pointer and \<open>Some r\<close> for a pointer to counter cell \<open>r\<close>.\<close>

record String =
  size_m :: u32
  data :: ptr
  own_memory :: bool
  refcount :: "nat option"

text \<open>\<open>assert(test, msg)\<close> of \<open>eoslib/system.h\<close> aborts with the message when the
  test is false: the result \<open>AssertFailed msg\<close>. An invalid memory access is the result
  \<open>MemFault\<close>.\<close>

datatype error = AssertFailed string | MemFault

text \<open>
  The store. \<open>objs\<close> gives the member values found at every object address (storage
  that no constructor has initialised yet holds indeterminate values, so the map is total);
  \<open>chars\<close> holds the live character blocks, \<open>cells\<close> the live \<open>uint32_t\<close> cells,
  \<open>fresh\<close> is the next identifier the allocator hands out, and \<open>junk8\<close>, \<open>junk32\<close>
  are the indeterminate contents of newly allocated memory.
\<close>

record state =
  objs :: "nat \<Rightarrow> String"
  chars :: "nat \<rightharpoonup> u8 list"
  cells :: "nat \<rightharpoonup> u32"
  fresh :: nat
  junk8 :: "nat \<Rightarrow> u8"
  junk32 :: u32

definition ebind :: "error + 'a \<Rightarrow> ('a \<Rightarrow> error + 'b) \<Rightarrow> error + 'b" where
  "ebind m f = (case m of Inl e \<Rightarrow> Inl e | Inr x \<Rightarrow> f x)"

subsection \<open>The allocator\<close>

text \<open>
  Modelled from the spec: the allocator of \<open>eoslib/memory.hpp\<close> (\<open>malloc\<close>,
  \<open>free\<close>, \<open>memcpy\<close>), which is not part of the sources. \<open>allocate(n)\<close> never
  returns an invalid handle and hands out a block of \<open>n\<close> bytes of indeterminate
  content that is disjoint from all others; \<open>free\<close> ends the lifetime of a block;
  \<open>copy(dst, src, n)\<close> copies \<open>n\<close> bytes. An access outside a live block is a
  \<open>MemFault\<close>, and so is freeing anything but the start of a live block; a copy of 0
  bytes touches no memory, and freeing the null pointer does nothing.
\<close>

definition malloc :: "state \<Rightarrow> nat \<Rightarrow> state \<times> ptr" where
  "malloc st n =
     (st\<lparr>chars := (chars st)(fresh st \<mapsto> map (junk8 st) [0..<n]), fresh := Suc (fresh st)\<rparr>,
      Ptr (fresh st) 0)"

definition malloc_cell :: "state \<Rightarrow> state \<times> nat" where
  "malloc_cell st =
     (st\<lparr>cells := (cells st)(fresh st \<mapsto> junk32 st), fresh := Suc (fresh st)\<rparr>, fresh st)"

definition free :: "state \<Rightarrow> ptr \<Rightarrow> error + state" where
  "free st p =
     (if p = nullptr then Inr st
      else if off p = 0 \<and> chars st (blk p) \<noteq> None
        then Inr (st\<lparr>chars := (chars st)(blk p := None)\<rparr>)
        else Inl MemFault)"

definition load :: "state \<Rightarrow> ptr \<Rightarrow> error + u8" where
  "load st p =
     (case chars st (blk p) of
        None \<Rightarrow> Inl MemFault
      | Some bs \<Rightarrow> if off p < length bs then Inr (bs ! off p) else Inl MemFault)"

definition load_n :: "state \<Rightarrow> ptr \<Rightarrow> nat \<Rightarrow> error + u8 list" where
  "load_n st p n =
     (if n = 0 then Inr []
      else case chars st (blk p) of
        None \<Rightarrow> Inl MemFault
      | Some bs \<Rightarrow>
          if off p + n \<le> length bs then Inr (take n (drop (off p) bs)) else Inl MemFault)"

definition store_n :: "state \<Rightarrow> ptr \<Rightarrow> u8 list \<Rightarrow> error + state" where
  "store_n st p xs =
     (if xs = [] then Inr st
      else case chars st (blk p) of
        None \<Rightarrow> Inl MemFault
      | Some bs \<Rightarrow>
          if off p + length xs \<le> length bs
          then Inr (st\<lparr>chars := (chars st)(blk p \<mapsto>
                      take (off p) bs @ xs @ drop (off p + length xs) bs)\<rparr>)
          else Inl MemFault)"

definition memcpy :: "state \<Rightarrow> ptr \<Rightarrow> ptr \<Rightarrow> nat \<Rightarrow> error + state" where
  "memcpy st dst src n = ebind (load_n st src n) (store_n st dst)"

subsection \<open>Reference counting, construction, destruction\<close>

text \<open>\<open>release_data_if_needed\<close>: decrement the counter of an owning object and free the
  data when the counter has become zero.\<close>

definition release_data_if_needed :: "state \<Rightarrow> nat \<Rightarrow> error + state" where
  "release_data_if_needed st this =
     (let s = objs st this in
      if own_memory s \<and> refcount s \<noteq> None then
        (case cells st (the (refcount s)) of
           None \<Rightarrow> Inl MemFault
         | Some c \<Rightarrow>
             let st1 = st\<lparr>cells := (cells st)(the (refcount s) \<mapsto> c - 1)\<rparr> in
             if c - 1 = 0 then free st1 (data s) else Inr st1)
      else Inr st)"

text \<open>\<open>String()\<close>\<close>

definition String_default :: "state \<Rightarrow> nat \<Rightarrow> state" where
  "String_default st this =
     st\<lparr>objs := (objs st)(this :=
        \<lparr>size_m = 0, data = nullptr, own_memory = False, refcount = None\<rparr>)\<rparr>"

text \<open>\<open>String(uint32_t s)\<close>\<close>

definition String_reserve :: "state \<Rightarrow> nat \<Rightarrow> u32 \<Rightarrow> state" where
  "String_reserve st this s =
     (let (st1, d) = malloc st (unat s);
          (st2, r) = malloc_cell st1;
          st3 = st2\<lparr>cells := (cells st2)(r \<mapsto> 1)\<rparr>
      in st3\<lparr>objs := (objs st3)(this :=
            \<lparr>size_m = s, data = d, own_memory = True, refcount = Some r\<rparr>)\<rparr>)"

text \<open>\<open>assign(char* d, uint32_t s, bool copy)\<close>\<close>

definition assign :: "state \<Rightarrow> nat \<Rightarrow> ptr \<Rightarrow> u32 \<Rightarrow> bool \<Rightarrow> error + state" where
  "assign st this d s copy =
     ebind (release_data_if_needed st this) (\<lambda>st1.
       if copy then
         (let (st2, p) = malloc st1 (unat s) in
          ebind (memcpy st2 p d (unat s)) (\<lambda>st3.
            let (st4, r) = malloc_cell st3;
                st5 = st4\<lparr>cells := (cells st4)(r \<mapsto> 1)\<rparr>
            in Inr (st5\<lparr>objs := (objs st5)(this :=
                     \<lparr>size_m = s, data = p, own_memory = True, refcount = Some r\<rparr>)\<rparr>)))
       else
         Inr (st1\<lparr>objs := (objs st1)(this :=
                \<lparr>size_m = s, data = d, own_memory = False, refcount = None\<rparr>)\<rparr>))"

text \<open>\<open>String(char* d, uint32_t s, bool copy)\<close>: the constructor body is the call of
  \<open>assign\<close>, which releases whatever the members of the not yet initialised object
  happen to hold.\<close>

definition String_from :: "state \<Rightarrow> nat \<Rightarrow> ptr \<Rightarrow> u32 \<Rightarrow> bool \<Rightarrow> error + state" where
  "String_from st this d s copy = assign st this d s copy"

text \<open>The members of \<open>obj\<close> are taken over and the counter, when there is one, is
  incremented. This is the body shared by the copy constructor and \<open>operator =\<close>.\<close>

definition alias_from :: "state \<Rightarrow> nat \<Rightarrow> nat \<Rightarrow> error + state" where
  "alias_from st this obj =
     (let st1 = st\<lparr>objs := (objs st)(this := objs st obj)\<rparr> in
      case refcount (objs st1 this) of
        None \<Rightarrow> Inr st1
      | Some r \<Rightarrow>
          (case cells st1 r of
             None \<Rightarrow> Inl MemFault
           | Some c \<Rightarrow> Inr (st1\<lparr>cells := (cells st1)(r \<mapsto> c + 1)\<rparr>)))"

text \<open>\<open>String(const String& obj)\<close>\<close>

definition String_copy :: "state \<Rightarrow> nat \<Rightarrow> nat \<Rightarrow> error + state" where
  "String_copy st this obj = (if this \<noteq> obj then alias_from st this obj else Inr st)"

text \<open>\<open>~String()\<close>\<close>

definition String_dtor :: "state \<Rightarrow> nat \<Rightarrow> error + state" where
  "String_dtor st this = release_data_if_needed st this"

text \<open>\<open>operator = (const String& obj)\<close>\<close>

definition op_assign :: "state \<Rightarrow> nat \<Rightarrow> nat \<Rightarrow> error + state" where
  "op_assign st this obj =
     (if this \<noteq> obj
      then ebind (release_data_if_needed st this) (\<lambda>st1. alias_from st1 this obj)
      else Inr st)"

subsection \<open>Substring, lengths, indexing\<close>

text \<open>\<open>substr(uint32_t offset, uint32_t substr_size, bool copy)\<close>. The sum in the
  assertion is a \<open>uint32_t\<close> sum. The result is constructed at the object address
  \<open>ret\<close>.\<close>

definition substr :: "state \<Rightarrow> nat \<Rightarrow> u32 \<Rightarrow> u32 \<Rightarrow> bool \<Rightarrow> nat \<Rightarrow> error + state" where
  "substr st this offset substr_size copy ret =
     (let s = objs st this in
      if offset < size_m s \<and> offset + substr_size < size_m s
      then String_from st ret (ptr_add (data s) (unat offset)) substr_size copy
      else Inl (AssertFailed ''out of bound''))"

text \<open>The test \<open>size > 0 && *(data + size - 1) == '\0'\<close>, which \<open>strlen\<close>,
  \<open>strlenUTF8\<close>, \<open>operator +=\<close> and \<open>print\<close> all start with.\<close>

definition null_terminated :: "state \<Rightarrow> String \<Rightarrow> error + bool" where
  "null_terminated st s =
     (if size_m s > 0
      then ebind (load st (ptr_sub (ptr_add (data s) (unat (size_m s))) 1)) (\<lambda>c. Inr (c = 0))
      else Inr False)"

text \<open>\<open>strlen()\<close>; \<open>sizeof(char)\<close> is 1.\<close>

definition strlen :: "state \<Rightarrow> nat \<Rightarrow> error + u32" where
  "strlen st this =
     (let s = objs st this in
      ebind (null_terminated st s) (\<lambda>nt.
        if nt then Inr (size_m s div 1 - 1) else Inr (size_m s div 1)))"

text \<open>The loop of \<open>strlenUTF8()\<close>: \<open>while (iterator != end)\<close>.\<close>

function strlenUTF8_loop :: "state \<Rightarrow> ptr \<Rightarrow> ptr \<Rightarrow> u32 \<Rightarrow> error + u32" where
  "strlenUTF8_loop st iterator end len =
     (if iterator \<noteq> end then
        (case load st iterator of
           Inl e \<Rightarrow> Inl e
         | Inr byte \<Rightarrow>
             strlenUTF8_loop st (ptr_add iterator 1) end
               (if \<not> (byte \<ge> 0x80 \<and> byte \<le> 0xBF) then len + 1 else len))
      else Inr len)"
  by pat_completeness auto
termination
proof (relation "measure (\<lambda>(st, iterator, end, len).
         case chars st (blk iterator) of None \<Rightarrow> 0 | Some bs \<Rightarrow> length bs - off iterator)")
  show "wf (measure (\<lambda>(st, iterator, end, len).
         case chars st (blk iterator) of None \<Rightarrow> 0 | Some bs \<Rightarrow> length bs - off iterator))"
    by simp
next
  fix st :: state and iterator "end" :: ptr and len :: u32 and byte :: u8
  assume "load st iterator = Inr byte"
  then show "((st, ptr_add iterator 1, end,
               if \<not> (byte \<ge> 0x80 \<and> byte \<le> 0xBF) then len + 1 else len),
              (st, iterator, end, len))
             \<in> measure (\<lambda>(st, iterator, end, len).
                 case chars st (blk iterator) of None \<Rightarrow> 0 | Some bs \<Rightarrow> length bs - off iterator)"
    by (auto simp: load_def ptr_add_def split: option.splits if_splits)
qed

declare strlenUTF8_loop.simps [simp del]

text \<open>\<open>strlenUTF8()\<close>\<close>

definition strlenUTF8 :: "state \<Rightarrow> nat \<Rightarrow> error + u32" where
  "strlenUTF8 st this =
     (let s = objs st this;
          iterator = data s;
          end = ptr_add (data s) (unat (size_m s))
      in ebind (null_terminated st s) (\<lambda>nt.
           strlenUTF8_loop st iterator (if nt then ptr_sub end 1 else end) 0))"

text \<open>\<open>operator [] (const uint32_t index)\<close>\<close>

definition op_index :: "state \<Rightarrow> nat \<Rightarrow> u32 \<Rightarrow> error + u8" where
  "op_index st this index =
     (let s = objs st this in
      if index < size_m s then load st (ptr_add (data s) (unat index))
      else Inl (AssertFailed ''index out of bound''))"

subsection \<open>Concatenation\<close>

text \<open>\<open>operator += (const String& str)\<close>. All reads of \<open>str\<close> precede the first
  write to \<open>*this\<close>.\<close>

definition op_plus_eq :: "state \<Rightarrow> nat \<Rightarrow> nat \<Rightarrow> error + state" where
  "op_plus_eq st this str =
     (let s = objs st this; t = objs st str in
      if size_m s + size_m t > size_m s \<and> size_m s + size_m t > size_m t then
        ebind (null_terminated st s) (\<lambda>nt.
        ebind
          (if nt then
             (let new_size = size_m s - 1 + size_m t;
                  (st1, new_data) = malloc st (unat new_size) in
              ebind (memcpy st1 new_data (data s) (unat (size_m s - 1))) (\<lambda>st2.
              ebind (memcpy st2 (ptr_sub (ptr_add new_data (unat (size_m s))) 1)
                       (data t) (unat (size_m t))) (\<lambda>st3.
                Inr (st3, new_data, new_size))))
           else
             (let new_size = size_m s + size_m t;
                  (st1, new_data) = malloc st (unat new_size) in
              ebind (memcpy st1 new_data (data s) (unat (size_m s))) (\<lambda>st2.
              ebind (memcpy st2 (ptr_add new_data (unat (size_m s)))
                       (data t) (unat (size_m t))) (\<lambda>st3.
                Inr (st3, new_data, new_size)))))
          (\<lambda>(st3, new_data, new_size).
        ebind (release_data_if_needed st3 this) (\<lambda>st4.
          let (st5, r) = malloc_cell st4;
              st6 = st5\<lparr>cells := (cells st5)(r \<mapsto> 1)\<rparr>
          in Inr (st6\<lparr>objs := (objs st6)(this :=
                   \<lparr>size_m = new_size, data = new_data, own_memory = True,
                    refcount = Some r\<rparr>)\<rparr>))))
      else Inl (AssertFailed ''overflow''))"

text \<open>\<open>operator + (String lhs, const String& rhs)\<close>: the body \<open>return lhs += rhs\<close>
  works on the parameter object \<open>lhs\<close> and copy-constructs the result at \<open>ret\<close>.\<close>

definition op_plus :: "state \<Rightarrow> nat \<Rightarrow> nat \<Rightarrow> nat \<Rightarrow> error + state" where
  "op_plus st lhs rhs ret =
     ebind (op_plus_eq st lhs rhs) (\<lambda>st1. String_copy st1 ret lhs)"

text \<open>An expression \<open>a + b\<close>: the by-value parameter \<open>lhs\<close> is copy-constructed from
  \<open>a\<close>, the body runs, and the parameter is destroyed.\<close>

definition plus_expr :: "state \<Rightarrow> nat \<Rightarrow> nat \<Rightarrow> nat \<Rightarrow> nat \<Rightarrow> error + state" where
  "plus_expr st a b lhs ret =
     ebind (String_copy st lhs a) (\<lambda>st1.
     ebind (op_plus st1 lhs b ret) (\<lambda>st2.
       String_dtor st2 lhs))"

subsection \<open>Comparison\<close>

text \<open>Whether plain \<open>char\<close> is signed is fixed by the compiler, not by the sources, so
  the order of two \<open>char\<close> values takes it as the parameter \<open>sg\<close>.\<close>

definition char_less :: "bool \<Rightarrow> u8 \<Rightarrow> u8 \<Rightarrow> bool" where
  "char_less sg a b = (if sg then sint a < sint b else a < b)"

text \<open>The loop of \<open>compare\<close>:
  \<open>while (str1_iterator != str1_end || str2_iterator != str2_end)\<close>.\<close>

function compare_loop :: "bool \<Rightarrow> state \<Rightarrow> ptr \<Rightarrow> ptr \<Rightarrow> ptr \<Rightarrow> ptr \<Rightarrow> error + int" where
  "compare_loop sg st str1_iterator str1_end str2_iterator str2_end =
     (if str1_iterator \<noteq> str1_end \<or> str2_iterator \<noteq> str2_end then
        if str1_iterator = str1_end then Inr (- 1)
        else if str2_iterator = str2_end then Inr 1
        else
          (case load st str1_iterator of
             Inl e \<Rightarrow> Inl e
           | Inr c1 \<Rightarrow>
               (case load st str2_iterator of
                  Inl e \<Rightarrow> Inl e
                | Inr c2 \<Rightarrow>
                    if char_less sg c2 c1 then Inr 1
                    else if char_less sg c1 c2 then Inr (- 1)
                    else compare_loop sg st (ptr_add str1_iterator 1) str1_end
                           (ptr_add str2_iterator 1) str2_end))
      else Inr 0)"
  by pat_completeness auto
termination
proof (relation "measure (\<lambda>(sg, st, it1, e1, it2, e2).
         case chars st (blk it1) of None \<Rightarrow> 0 | Some bs \<Rightarrow> length bs - off it1)")
  show "wf (measure (\<lambda>(sg, st, it1, e1, it2, e2).
         case chars st (blk it1) of None \<Rightarrow> 0 | Some bs \<Rightarrow> length bs - off it1))"
    by simp
next
  fix sg :: bool and st :: state and it1 e1 it2 e2 :: ptr and c1 c2 :: u8
  assume "load st it1 = Inr c1"
  then show "((sg, st, ptr_add it1 1, e1, ptr_add it2 1, e2), (sg, st, it1, e1, it2, e2))
             \<in> measure (\<lambda>(sg, st, it1, e1, it2, e2).
                 case chars st (blk it1) of None \<Rightarrow> 0 | Some bs \<Rightarrow> length bs - off it1)"
    by (auto simp: load_def ptr_add_def split: option.splits if_splits)
qed

declare compare_loop.simps [simp del]

text \<open>\<open>compare(const String& str)\<close>\<close>

definition compare :: "bool \<Rightarrow> state \<Rightarrow> nat \<Rightarrow> nat \<Rightarrow> error + int" where
  "compare sg st this str =
     (let s = objs st this; t = objs st str in
      compare_loop sg st (data s) (ptr_add (data s) (unat (size_m s)))
        (data t) (ptr_add (data t) (unat (size_m t))))"

text \<open>The friend operators \<open><\<close>, \<open>>\<close>, \<open>==\<close> and \<open>!=\<close>.\<close>

definition op_lt :: "bool \<Rightarrow> state \<Rightarrow> nat \<Rightarrow> nat \<Rightarrow> error + bool" where
  "op_lt sg st lhs rhs = ebind (compare sg st lhs rhs) (\<lambda>r. Inr (r < 0))"

definition op_gt :: "bool \<Rightarrow> state \<Rightarrow> nat \<Rightarrow> nat \<Rightarrow> error + bool" where
  "op_gt sg st lhs rhs = ebind (compare sg st lhs rhs) (\<lambda>r. Inr (r > 0))"

definition op_eq :: "bool \<Rightarrow> state \<Rightarrow> nat \<Rightarrow> nat \<Rightarrow> error + bool" where
  "op_eq sg st lhs rhs = ebind (compare sg st lhs rhs) (\<lambda>r. Inr (r = 0))"

definition op_ne :: "bool \<Rightarrow> state \<Rightarrow> nat \<Rightarrow> nat \<Rightarrow> error + bool" where
  "op_ne sg st lhs rhs = ebind (compare sg st lhs rhs) (\<lambda>r. Inr (r \<noteq> 0))"

subsection \<open>Well-formed stores and the bytes of a string\<close>

text \<open>The allocator has handed out no identifier at or above \<open>fresh\<close>.\<close>

definition heap_ok :: "state \<Rightarrow> bool" where
  "heap_ok st = (\<forall>k. fresh st \<le> k \<longrightarrow> chars st k = None \<and> cells st k = None)"

text \<open>The \<open>n\<close> bytes at \<open>p\<close> lie inside one live block.\<close>

definition readable :: "state \<Rightarrow> ptr \<Rightarrow> nat \<Rightarrow> bool" where
  "readable st p n =
     (case chars st (blk p) of None \<Rightarrow> False | Some bs \<Rightarrow> off p + n \<le> length bs)"

text \<open>The bytes \<open>data[0] .. data[size - 1]\<close> of a string, and when they may be read.
  A string of size 0 is valid whatever its pointer is.\<close>

definition contents :: "state \<Rightarrow> String \<Rightarrow> u8 list" where
  "contents st s =
     (case chars st (blk (data s)) of
        None \<Rightarrow> []
      | Some bs \<Rightarrow> take (unat (size_m s)) (drop (off (data s)) bs))"

definition valid_string :: "state \<Rightarrow> String \<Rightarrow> bool" where
  "valid_string st s = (size_m s = 0 \<or> readable st (data s) (unat (size_m s)))"

text \<open>The release of \<open>s\<close> can proceed: when \<open>s\<close> owns memory through a counter,
  the counter cell is live, and if this is the last reference then \<open>data\<close> is the start
  of a block (or null), as a pointer that \<open>malloc\<close> returned is.\<close>

definition can_release :: "state \<Rightarrow> String \<Rightarrow> bool" where
  "can_release st s =
     (if own_memory s \<and> refcount s \<noteq> None
      then (case cells st (the (refcount s)) of
              None \<Rightarrow> False
            | Some c \<Rightarrow> c - 1 \<noteq> 0 \<or> off (data s) = 0)
      else True)"

text \<open>The \<open>n\<close> bytes found at \<open>p\<close>.\<close>

definition bytes_at :: "state \<Rightarrow> ptr \<Rightarrow> nat \<Rightarrow> u8 list" where
  "bytes_at st p n =
     (case chars st (blk p) of None \<Rightarrow> [] | Some bs \<Rightarrow> take n (drop (off p) bs))"

text \<open>The bytes of a concatenation, as the specification words it: the left bytes, without
  the final byte when that byte is zero, followed by all right bytes.\<close>

definition concat_bytes :: "u8 list \<Rightarrow> u8 list \<Rightarrow> u8 list" where
  "concat_bytes xs ys = (if xs \<noteq> [] \<and> last xs = 0 then butlast xs else xs) @ ys"

text \<open>A byte that is not of the form \<open>10xxxxxx\<close>.\<close>

definition utf8_lead :: "u8 \<Rightarrow> bool" where
  "utf8_lead b = (\<not> (0x80 \<le> b \<and> b \<le> 0xBF))"

text \<open>The three-way lexicographic comparison of two byte lists, as the specification
  words it: bytes are compared up to the shorter length, and a strict prefix is less.\<close>

fun lex_compare :: "bool \<Rightarrow> u8 list \<Rightarrow> u8 list \<Rightarrow> int" where
  "lex_compare sg [] [] = 0"
| "lex_compare sg [] (y # ys) = - 1"
| "lex_compare sg (x # xs) [] = 1"
| "lex_compare sg (x # xs) (y # ys) =
     (if char_less sg y x then 1
      else if char_less sg x y then - 1
      else lex_compare sg xs ys)"

subsection \<open>A concrete store\<close>

text \<open>A non-owning view of \<open>n\<close> bytes at \<open>p\<close>.\<close>

definition view :: "ptr \<Rightarrow> u32 \<Rightarrow> String" where
  "view p n = \<lparr>size_m = n, data = p, own_memory = False, refcount = None\<rparr>"

text \<open>Object 1 owns the three bytes \<open>ab\0\<close> of block 1 through counter cell 2, which
  holds 1. Object 2 is a view of the two bytes \<open>cd\<close>, and object 3 a view that claims
  \<open>0xFFFFFFFF\<close> bytes at the same address. Objects 4 and 5 are views of the UTF-8 bytes
  \<open>68 C3 A9 6C 6C 6F\<close> (hello with an acute accent on the e) without and with the zero
  byte that follows them. Objects 8 to 11 are views of \<open>abc\<close>, \<open>abc\0\<close>,
  \<open>abd\<close> and \<open>abcd\<close>, object 12 is a view of \<open>hello\<close>, objects 14 and 15
  are views of the single bytes \<open>C3\<close> and \<open>6C\<close>, and every other object is an
  empty view.\<close>

definition ex_state :: state where
  "ex_state =
     \<lparr>objs = (\<lambda>_. view nullptr 0)
        (1 := \<lparr>size_m = 3, data = Ptr 1 0, own_memory = True, refcount = Some 2\<rparr>,
         2 := view (Ptr 3 0) 2,
         3 := view (Ptr 3 0) 0xFFFFFFFF,
         4 := view (Ptr 4 0) 6,
         5 := view (Ptr 4 0) 7,
         8 := view (Ptr 5 0) 3,
         9 := view (Ptr 5 0) 4,
         10 := view (Ptr 6 0) 3,
         11 := view (Ptr 7 0) 4,
         12 := view (Ptr 8 0) 5,
         14 := view (Ptr 4 1) 1,
         15 := view (Ptr 4 3) 1),
      chars = [1 \<mapsto> [0x61, 0x62, 0], 3 \<mapsto> [0x63, 0x64],
               4 \<mapsto> [0x68, 0xC3, 0xA9, 0x6C, 0x6C, 0x6F, 0],
               5 \<mapsto> [0x61, 0x62, 0x63, 0],
               6 \<mapsto> [0x61, 0x62, 0x64],
               7 \<mapsto> [0x61, 0x62, 0x63, 0x64],
               8 \<mapsto> [0x68, 0x65, 0x6C, 0x6C, 0x6F]],
      cells = [2 \<mapsto> 1],
      fresh = 20,
      junk8 = (\<lambda>_. 0),
      junk32 = 0\<rparr>"

text \<open>The same store after object 6 has been copy-constructed from object 1: both own the
  block of \<open>ab\0\<close>, and the counter is 2.\<close>

definition ex_shared :: state where
  "ex_shared =
     ex_state\<lparr>objs := (objs ex_state)(6 := objs ex_state 1),
              cells := (cells ex_state)(2 \<mapsto> 2)\<rparr>"

text \<open>The first store again, where the storage at object address 13, in which no object has
  been constructed, still holds the member values of object 1.\<close>

definition ex_stale :: state where
  "ex_stale = ex_state\<lparr>objs := (objs ex_state)(13 := objs ex_state 1)\<rparr>"

section \<open>Auxiliary facts\<close>

lemma ebind_Inr_iff: "ebind m f = Inr y \<longleftrightarrow> (\<exists>x. m = Inr x \<and> f x = Inr y)"
  by (cases m) (auto simp: ebind_def)

lemma ebind_Inl_iff: "ebind m f = Inl e \<longleftrightarrow> m = Inl e \<or> (\<exists>x. m = Inr x \<and> f x = Inl e)"
  by (cases m) (auto simp: ebind_def)

lemma ebind_simps [simp]: "ebind (Inl e) f = Inl e" "ebind (Inr x) f = f x"
  by (simp_all add: ebind_def)

subsection \<open>The only failures besides the assertions are memory faults\<close>

lemma load_err: "load st p = Inl e \<Longrightarrow> e = MemFault"
  by (auto simp: load_def split: option.splits if_splits)

lemma load_n_err: "load_n st p n = Inl e \<Longrightarrow> e = MemFault"
  by (auto simp: load_n_def split: option.splits if_splits)

lemma store_n_err: "store_n st p xs = Inl e \<Longrightarrow> e = MemFault"
  by (auto simp: store_n_def split: option.splits if_splits)

lemma memcpy_err: "memcpy st d s n = Inl e \<Longrightarrow> e = MemFault"
  by (auto simp: memcpy_def ebind_Inl_iff dest: load_n_err store_n_err)

lemma free_err: "free st p = Inl e \<Longrightarrow> e = MemFault"
  by (auto simp: free_def split: if_splits)

lemma release_err: "release_data_if_needed st this = Inl e \<Longrightarrow> e = MemFault"
  by (auto simp: release_data_if_needed_def Let_def split: option.splits if_splits dest: free_err)

lemma null_terminated_err: "null_terminated st s = Inl e \<Longrightarrow> e = MemFault"
  by (auto simp: null_terminated_def ebind_Inl_iff split: if_splits dest: load_err)

lemma alias_from_err: "alias_from st this obj = Inl e \<Longrightarrow> e = MemFault"
  by (auto simp: alias_from_def Let_def split: option.splits)

lemma String_copy_err: "String_copy st this obj = Inl e \<Longrightarrow> e = MemFault"
  by (auto simp: String_copy_def split: if_splits dest: alias_from_err)

lemma assign_err: "assign st this d s copy = Inl e \<Longrightarrow> e = MemFault"
  by (auto simp: assign_def ebind_Inl_iff Let_def split: if_splits prod.splits
      dest: release_err memcpy_err)

lemma op_plus_eq_err:
  "op_plus_eq st this str = Inl e \<Longrightarrow>
     e = MemFault \<or>
     (e = AssertFailed ''overflow'' \<and>
      \<not> (size_m (objs st this) + size_m (objs st str) > size_m (objs st this) \<and>
         size_m (objs st this) + size_m (objs st str) > size_m (objs st str)))"
  by (auto simp: op_plus_eq_def ebind_Inl_iff Let_def split: if_splits prod.splits
      dest: release_err memcpy_err null_terminated_err)

lemma op_plus_err:
  "op_plus st lhs rhs ret = Inl e \<Longrightarrow>
     e = MemFault \<or> (e = AssertFailed ''overflow'' \<and> op_plus_eq st lhs rhs = Inl e)"
  using op_plus_eq_err [of st lhs rhs e]
  by (auto simp: op_plus_def ebind_Inl_iff dest: String_copy_err)

lemma op_plus_eq_assert_fails:
  "\<not> (size_m (objs st this) < size_m (objs st this) + size_m (objs st str) \<and>
      size_m (objs st str) < size_m (objs st this) + size_m (objs st str)) \<Longrightarrow>
   op_plus_eq st this str = Inl (AssertFailed ''overflow'')"
  unfolding op_plus_eq_def Let_def by (rule if_not_P)

subsection \<open>Unsigned 32-bit sums\<close>

lemma u32_sum_wraps:
  "2 ^ 32 \<le> unat (a::u32) + unat b \<Longrightarrow> \<not> (a < a + b \<and> b < a + b)"
proof
  assume h: "2 ^ 32 \<le> unat a + unat b" and c: "a < a + b \<and> b < a + b"
  from c have "a < a + b" by (rule conjunct1)
  then have "a \<le> a + b" by (rule order.strict_implies_order)
  then have "unat a + unat b < 2 ^ 32" by (simp add: no_olen_add_nat)
  with h show False by simp
qed

lemma u32_sum_exact: "(a::u32) < a + b \<Longrightarrow> unat (a + b) = unat a + unat b"
  by (metis no_olen_add_nat order.strict_implies_order unat_add_lem)

subsection \<open>The expression a + b\<close>

lemma String_copy_objs:
  "String_copy st this obj = Inr st1 \<Longrightarrow>
     objs st1 this = objs st obj \<and> (\<forall>x. x \<noteq> this \<longrightarrow> objs st1 x = objs st x)"
  by (auto simp: String_copy_def alias_from_def Let_def split: if_splits option.splits)

lemma plus_expr_overflow_iff:
  assumes c: "String_copy st lhs a = Inr st1" and d: "lhs \<noteq> b"
  shows "plus_expr st a b lhs ret = Inl (AssertFailed ''overflow'') \<longleftrightarrow>
      \<not> (size_m (objs st a) < size_m (objs st a) + size_m (objs st b) \<and>
         size_m (objs st b) < size_m (objs st a) + size_m (objs st b))"
proof -
  from String_copy_objs [OF c] d
  have o: "objs st1 lhs = objs st a" "objs st1 b = objs st b" by auto
  have e: "plus_expr st a b lhs ret = ebind (op_plus st1 lhs b ret) (\<lambda>st2. String_dtor st2 lhs)"
    by (simp add: plus_expr_def c)
  show ?thesis
  proof
    assume "plus_expr st a b lhs ret = Inl (AssertFailed ''overflow'')"
    with e have "ebind (op_plus st1 lhs b ret) (\<lambda>st2. String_dtor st2 lhs) =
        Inl (AssertFailed ''overflow'')" by simp
    then have "op_plus st1 lhs b ret = Inl (AssertFailed ''overflow'')"
      unfolding ebind_Inl_iff String_dtor_def by (auto dest: release_err)
    from op_plus_err [OF this] have "op_plus_eq st1 lhs b = Inl (AssertFailed ''overflow'')"
      by simp
    from op_plus_eq_err [OF this] o
    show "\<not> (size_m (objs st a) < size_m (objs st a) + size_m (objs st b) \<and>
         size_m (objs st b) < size_m (objs st a) + size_m (objs st b))"
      by simp
  next
    assume "\<not> (size_m (objs st a) < size_m (objs st a) + size_m (objs st b) \<and>
         size_m (objs st b) < size_m (objs st a) + size_m (objs st b))"
    with o have "op_plus_eq st1 lhs b = Inl (AssertFailed ''overflow'')"
      using op_plus_eq_assert_fails [of st1 lhs b] by simp
    then show "plus_expr st a b lhs ret = Inl (AssertFailed ''overflow'')"
      by (simp add: e op_plus_def)
  qed
qed

subsection \<open>Valid strings\<close>

lemma length_contents: "valid_string st s \<Longrightarrow> length (contents st s) = unat (size_m s)"
  by (auto simp: valid_string_def contents_def readable_def unat_eq_0 split: option.splits)

lemma null_terminated_valid:
  assumes "valid_string st s"
  shows "null_terminated st s = Inr (size_m s > 0 \<and> last (contents st s) = 0)"
proof (cases "size_m s = 0")
  case True
  then show ?thesis by (simp add: null_terminated_def)
next
  case False
  then have pos: "0 < size_m s" "0 < unat (size_m s)"
    by (simp_all add: word_greater_zero_iff unat_gt_0)
  from assms False obtain bs where bs: "chars st (blk (data s)) = Some bs"
    and le: "off (data s) + unat (size_m s) \<le> length bs"
    by (auto simp: valid_string_def readable_def split: option.splits)
  let ?n = "unat (size_m s)" and ?o = "off (data s)"
  have ne: "take ?n (drop ?o bs) \<noteq> []" using pos le by auto
  have len: "length (take ?n (drop ?o bs)) = ?n" using le by simp
  have "last (take ?n (drop ?o bs)) = take ?n (drop ?o bs) ! (?n - 1)"
    unfolding last_conv_nth [OF ne] len ..
  also have "\<dots> = drop ?o bs ! (?n - 1)"
    using pos by (intro nth_take) simp
  also have "\<dots> = bs ! (?o + (?n - 1))"
    using le by (intro nth_drop) simp
  also have "?o + (?n - 1) = ?o + ?n - 1"
    using pos by simp
  finally have l: "last (contents st s) = bs ! (?o + ?n - 1)"
    by (simp add: contents_def bs)
  have "load st (ptr_sub (ptr_add (data s) ?n) 1) = Inr (bs ! (?o + ?n - 1))"
    using pos le by (simp add: load_def ptr_sub_def ptr_add_def bs)
  with pos l show ?thesis by (simp add: null_terminated_def)
qed

subsection \<open>The loop of strlenUTF8\<close>

lemma strlenUTF8_loop_count:
  assumes "chars st b = Some bs"
  shows "i \<le> e \<Longrightarrow> e \<le> length bs \<Longrightarrow>
     strlenUTF8_loop st (Ptr b i) (Ptr b e) len =
       Inr (len + of_nat (length (filter utf8_lead (take (e - i) (drop i bs)))))"
proof (induction "e - i" arbitrary: i len)
  case 0
  then show ?case by (simp add: strlenUTF8_loop.simps)
next
  case (Suc k)
  then have lt: "i < e" "i < length bs" by simp_all
  have ld: "load st (Ptr b i) = Inr (bs ! i)"
    using lt by (simp add: load_def assms)
  have k: "k = e - Suc i" using Suc.hyps by simp
  have tk: "take (e - i) (drop i bs) = bs ! i # take (e - Suc i) (drop (Suc i) bs)"
    using lt Suc.hyps(2) [symmetric] k by (simp add: Cons_nth_drop_Suc [symmetric])
  have ne: "Ptr b i \<noteq> Ptr b e" using lt by simp
  have ih: "strlenUTF8_loop st (Ptr b (Suc i)) (Ptr b e) len' =
       Inr (len' + of_nat (length (filter utf8_lead (take (e - Suc i) (drop (Suc i) bs)))))"
    for len'
    using Suc.hyps(1) [OF k] lt Suc.prems by simp
  show ?case
    apply (subst strlenUTF8_loop.simps)
    apply (simp only: ne if_True ld sum.case ptr_add_def ptr.sel Suc_eq_plus1 [symmetric])
    apply (simp add: ih tk utf8_lead_def)
    done
qed

lemma strlenUTF8_loop_empty: "strlenUTF8_loop st p p len = Inr len"
  by (simp add: strlenUTF8_loop.simps)

lemma strlenUTF8_scan:
  assumes v: "valid_string st s" and n: "n \<le> unat (size_m s)"
  shows "strlenUTF8_loop st (data s) (Ptr (blk (data s)) (off (data s) + n)) 0 =
     Inr (of_nat (length (filter utf8_lead (take n (contents st s)))))"
proof (cases "n = 0")
  case True
  then show ?thesis by (cases "data s") (simp add: strlenUTF8_loop.simps)
next
  case False
  with n have "size_m s \<noteq> 0" by (auto simp: unat_eq_0)
  with v obtain bs where bs: "chars st (blk (data s)) = Some bs"
    and le: "off (data s) + unat (size_m s) \<le> length bs"
    by (auto simp: valid_string_def readable_def split: option.splits)
  have "strlenUTF8_loop st (Ptr (blk (data s)) (off (data s)))
          (Ptr (blk (data s)) (off (data s) + n)) 0 =
        Inr (0 + of_nat (length (filter utf8_lead (take (off (data s) + n - off (data s))
          (drop (off (data s)) bs)))))"
    using le n by (intro strlenUTF8_loop_count [OF bs]) simp_all
  moreover have "take n (contents st s) = take n (drop (off (data s)) bs)"
    using n by (simp add: contents_def bs min_def)
  ultimately show ?thesis by simp
qed

subsection \<open>Release, allocation and assign\<close>

lemma release_noop:
  "\<not> (own_memory (objs st this) \<and> refcount (objs st this) \<noteq> None) \<Longrightarrow>
     release_data_if_needed st this = Inr st"
  by (auto simp: release_data_if_needed_def Let_def)

lemma release_frame:
  "release_data_if_needed st this = Inr st' \<Longrightarrow>
     objs st' = objs st \<and> fresh st' = fresh st \<and> junk8 st' = junk8 st \<and>
     junk32 st' = junk32 st \<and>
     (\<forall>b. chars st' b = chars st b \<or> chars st' b = None)"
  by (auto simp: release_data_if_needed_def Let_def free_def
      split: if_splits option.splits)

lemma contents_view [simp]:
  "contents st (view p n) =
     (case chars st (blk p) of None \<Rightarrow> [] | Some bs \<Rightarrow> take (unat n) (drop (off p) bs))"
  by (simp add: contents_def view_def split: option.splits)

lemma memcpy_into_fresh:
  assumes v: "n = 0 \<or> readable st src n" and f: "chars st (fresh st) = None"
  shows "memcpy (fst (malloc st n)) (snd (malloc st n)) src n =
     Inr (st\<lparr>chars := (chars st)(fresh st \<mapsto>
             (case chars st (blk src) of None \<Rightarrow> [] | Some bs \<Rightarrow> take n (drop (off src) bs))),
            fresh := Suc (fresh st)\<rparr>)"
proof (cases "n = 0")
  case True
  then show ?thesis
    by (simp add: memcpy_def load_n_def store_n_def malloc_def split: option.splits)
next
  case False
  with v obtain bs where bs: "chars st (blk src) = Some bs" and le: "off src + n \<le> length bs"
    by (auto simp: readable_def split: option.splits)
  from bs f have ne: "blk src \<noteq> fresh st" by auto
  have l: "load_n (fst (malloc st n)) src n = Inr (take n (drop (off src) bs))"
    using False bs le ne by (simp add: load_n_def malloc_def)
  have t: "take n (drop (off src) bs) \<noteq> []" using False le by auto
  have len: "length (take n (drop (off src) bs)) = n" using le by simp
  show ?thesis
    unfolding memcpy_def l ebind_simps
    using t len by (simp add: store_n_def malloc_def bs)
qed


lemma malloc_sel [simp]:
  "snd (malloc st n) = Ptr (fresh st) 0"
  "snd (malloc_cell st) = fresh st"
  by (simp_all add: malloc_def malloc_cell_def)

lemma assign_view:
  "\<not> (own_memory (objs st this) \<and> refcount (objs st this) \<noteq> None) \<Longrightarrow>
     assign st this d s False = Inr (st\<lparr>objs := (objs st)(this := view d s)\<rparr>)"
  by (simp add: assign_def release_noop view_def)

lemma assign_copy:
  assumes g: "\<not> (own_memory (objs st this) \<and> refcount (objs st this) \<noteq> None)"
    and f: "chars st (fresh st) = None"
    and v: "valid_string st (view d s)"
  shows "assign st this d s True =
     Inr (st\<lparr>objs := (objs st)(this :=
               \<lparr>size_m = s, data = Ptr (fresh st) 0, own_memory = True,
                refcount = Some (Suc (fresh st))\<rparr>),
             chars := (chars st)(fresh st \<mapsto> contents st (view d s)),
             cells := (cells st)(Suc (fresh st) \<mapsto> 1),
             fresh := Suc (Suc (fresh st))\<rparr>)"
proof -
  from v have "unat s = 0 \<or> readable st d (unat s)"
    by (auto simp: valid_string_def view_def)
  from memcpy_into_fresh [OF this f]
  show ?thesis
    by (simp add: assign_def release_noop [OF g] split_beta malloc_cell_def)
qed

lemma assign_fields:
  assumes "assign st this d s copy = Inr st'"
  shows "size_m (objs st' this) = s \<and> own_memory (objs st' this) = copy \<and>
     (\<not> copy \<longrightarrow> data (objs st' this) = d \<and> refcount (objs st' this) = None) \<and>
     (copy \<longrightarrow> data (objs st' this) = Ptr (fresh st) 0 \<and>
        (\<exists>r. refcount (objs st' this) = Some r \<and> cells st' r = Some 1))"
proof -
  from assms obtain st1 where r: "release_data_if_needed st this = Inr st1"
    and a: "(if copy then
         (let (st2, p) = malloc st1 (unat s) in
          ebind (memcpy st2 p d (unat s)) (\<lambda>st3.
            let (st4, r) = malloc_cell st3;
                st5 = st4\<lparr>cells := (cells st4)(r \<mapsto> 1)\<rparr>
            in Inr (st5\<lparr>objs := (objs st5)(this :=
                     \<lparr>size_m = s, data = p, own_memory = True, refcount = Some r\<rparr>)\<rparr>)))
       else
         Inr (st1\<lparr>objs := (objs st1)(this :=
                \<lparr>size_m = s, data = d, own_memory = False, refcount = None\<rparr>)\<rparr>)) = Inr st'"
    by (auto simp: assign_def ebind_Inr_iff)
  from release_frame [OF r] have fr: "fresh st1 = fresh st" by simp
  show ?thesis
  proof (cases copy)
    case False
    with a show ?thesis by auto
  next
    case True
    with a fr show ?thesis
      by (auto simp: ebind_Inr_iff split_beta malloc_def malloc_cell_def Let_def)
  qed
qed

subsection \<open>Comparison\<close>

lemma char_less_irrefl [simp]: "\<not> char_less sg x x"
  by (simp add: char_less_def)

lemma char_less_asym: "char_less sg x y \<Longrightarrow> \<not> char_less sg y x"
  by (auto simp: char_less_def split: if_splits)

lemma char_less_total:
  assumes "\<not> char_less sg x y" and "\<not> char_less sg y x"
  shows "x = y"
proof (cases sg)
  case True
  with assms have "sint x = sint y" by (simp add: char_less_def)
  then show ?thesis by (rule signed_word_eqI)
next
  case False
  with assms show ?thesis by (simp add: char_less_def)
qed

lemma lex_compare_range: "lex_compare sg xs ys \<in> {1, 0, - 1}"
  by (induction sg xs ys rule: lex_compare.induct) auto

lemma lex_compare_antisym: "lex_compare sg ys xs = - lex_compare sg xs ys"
  by (induction sg xs ys rule: lex_compare.induct) (auto dest: char_less_asym)

lemma lex_compare_refl [simp]: "lex_compare sg xs xs = 0"
  by (induction xs) auto

lemma lex_compare_eq_0: "lex_compare sg xs ys = 0 \<longleftrightarrow> xs = ys"
  by (induction sg xs ys rule: lex_compare.induct) (auto dest: char_less_total)

lemma lex_compare_less:
  "lex_compare sg xs ys = - 1 \<longleftrightarrow>
     strict_prefix xs ys \<or>
     (\<exists>p x y u v. xs = p @ x # u \<and> ys = p @ y # v \<and> char_less sg x y)"
proof (induction sg xs ys rule: lex_compare.induct)
  case (1 sg)
  then show ?case by simp
next
  case (2 sg y ys)
  then show ?case by simp
next
  case (3 sg x xs)
  then show ?case by simp
next
  case (4 sg x xs y ys)
  show ?case
  proof (cases "char_less sg y x")
    case True
    then have n: "\<not> char_less sg x y" "x \<noteq> y" by (auto dest: char_less_asym)
    have "\<not> (\<exists>p a b u v. x # xs = p @ a # u \<and> y # ys = p @ b # v \<and> char_less sg a b)"
      using n by (auto simp: Cons_eq_append_conv)
    with True n show ?thesis by auto
  next
    case False
    show ?thesis
    proof (cases "char_less sg x y")
      case True
      have "x # xs = [] @ x # xs \<and> y # ys = [] @ y # ys \<and> char_less sg x y"
        using True by simp
      then have "\<exists>p a b u v. x # xs = p @ a # u \<and> y # ys = p @ b # v \<and> char_less sg a b"
        by blast
      with True False show ?thesis by simp
    next
      case nl: False
      with False have e: "x = y" by (rule char_less_total [rotated])
      have "(\<exists>p a b u v. x # xs = p @ a # u \<and> y # ys = p @ b # v \<and> char_less sg a b) \<longleftrightarrow>
            (\<exists>p a b u v. xs = p @ a # u \<and> ys = p @ b # v \<and> char_less sg a b)"
        (is "?L \<longleftrightarrow> ?R")
      proof
        assume ?L
        then obtain p a b u v where h: "x # xs = p @ a # u" "y # ys = p @ b # v"
          "char_less sg a b" by blast
        with nl have "p \<noteq> []" by auto
        then obtain q where "p = x # q" using h(1) by (cases p) auto
        with h show ?R by auto
      next
        assume ?R
        then obtain p a b u v where h: "xs = p @ a # u" "ys = p @ b # v"
          "char_less sg a b" by blast
        then have "x # xs = (x # p) @ a # u \<and> y # ys = (x # p) @ b # v \<and> char_less sg a b"
          using e by simp
        then show ?L by blast
      qed
      with 4 False nl e show ?thesis by simp
    qed
  qed
qed

lemma lex_compare_greater:
  "lex_compare sg xs ys = 1 \<longleftrightarrow>
     strict_prefix ys xs \<or>
     (\<exists>p x y u v. xs = p @ x # u \<and> ys = p @ y # v \<and> char_less sg y x)"
proof -
  have "lex_compare sg xs ys = 1 \<longleftrightarrow> lex_compare sg ys xs = - 1"
    using lex_compare_antisym [of sg ys xs] by auto
  also have "\<dots> \<longleftrightarrow> strict_prefix ys xs \<or>
     (\<exists>p y x v u. ys = p @ y # v \<and> xs = p @ x # u \<and> char_less sg y x)"
    by (rule lex_compare_less)
  also have "\<dots> \<longleftrightarrow> strict_prefix ys xs \<or>
     (\<exists>p x y u v. xs = p @ x # u \<and> ys = p @ y # v \<and> char_less sg y x)"
    by blast
  finally show ?thesis .
qed

lemma compare_loop_lists:
  "(\<And>k. k < length xs \<Longrightarrow> load st (Ptr b1 (i1 + k)) = Inr (xs ! k)) \<Longrightarrow>
   (\<And>k. k < length ys \<Longrightarrow> load st (Ptr b2 (i2 + k)) = Inr (ys ! k)) \<Longrightarrow>
   compare_loop sg st (Ptr b1 i1) (Ptr b1 (i1 + length xs)) (Ptr b2 i2) (Ptr b2 (i2 + length ys))
     = Inr (lex_compare sg xs ys)"
proof (induction sg xs ys arbitrary: i1 i2 rule: lex_compare.induct)
  case (1 sg)
  then show ?case by (simp add: compare_loop.simps)
next
  case (2 sg y ys)
  then show ?case by (simp add: compare_loop.simps)
next
  case (3 sg x xs)
  then show ?case by (simp add: compare_loop.simps)
next
  case (4 sg x xs y ys)
  from 4(2) [of 0] have l1: "load st (Ptr b1 i1) = Inr x" by simp
  from 4(3) [of 0] have l2: "load st (Ptr b2 i2) = Inr y" by simp
  have s1: "load st (Ptr b1 (Suc i1 + k)) = Inr (xs ! k)" if "k < length xs" for k
    using 4(2) [of "Suc k"] that by simp
  have s2: "load st (Ptr b2 (Suc i2 + k)) = Inr (ys ! k)" if "k < length ys" for k
    using 4(3) [of "Suc k"] that by simp
  have ih: "\<not> char_less sg y x \<Longrightarrow> \<not> char_less sg x y \<Longrightarrow>
     compare_loop sg st (Ptr b1 (Suc i1)) (Ptr b1 (Suc i1 + length xs))
       (Ptr b2 (Suc i2)) (Ptr b2 (Suc i2 + length ys)) = Inr (lex_compare sg xs ys)"
    using 4(1) [of "Suc i1" "Suc i2"] s1 s2 by blast
  show ?case
    apply (subst compare_loop.simps)
    apply (simp add: l1 l2 ptr_add_def)
    using ih apply simp
    done
qed

lemma load_contents:
  assumes "valid_string st s" and "k < length (contents st s)"
  shows "load st (Ptr (blk (data s)) (off (data s) + k)) = Inr (contents st s ! k)"
proof -
  from assms(2) have "size_m s \<noteq> 0" by (auto simp: contents_def split: option.splits)
  with assms(1) obtain bs where bs: "chars st (blk (data s)) = Some bs"
    and le: "off (data s) + unat (size_m s) \<le> length bs"
    by (auto simp: valid_string_def readable_def split: option.splits)
  from assms(2) have k: "k < unat (size_m s)" by (simp add: contents_def bs)
  with le show ?thesis by (simp add: load_def bs contents_def)
qed

lemma compare_lex:
  assumes a: "valid_string st (objs st this)" and b: "valid_string st (objs st str)"
  shows "compare sg st this str =
     Inr (lex_compare sg (contents st (objs st this)) (contents st (objs st str)))"
proof -
  let ?s = "objs st this" and ?t = "objs st str"
  have "compare sg st this str =
      compare_loop sg st (Ptr (blk (data ?s)) (off (data ?s)))
        (Ptr (blk (data ?s)) (off (data ?s) + length (contents st ?s)))
        (Ptr (blk (data ?t)) (off (data ?t)))
        (Ptr (blk (data ?t)) (off (data ?t) + length (contents st ?t)))"
    by (simp add: compare_def Let_def ptr_add_def length_contents [OF a] length_contents [OF b])
  also have "\<dots> = Inr (lex_compare sg (contents st ?s) (contents st ?t))"
    by (rule compare_loop_lists) (rule load_contents [OF a], assumption,
        rule load_contents [OF b], assumption)
  finally show ?thesis .
qed


lemma relational_ops:
  "compare sg st lhs rhs = Inr r \<Longrightarrow>
     op_lt sg st lhs rhs = Inr (r < 0) \<and> op_gt sg st lhs rhs = Inr (r > 0) \<and>
     op_eq sg st lhs rhs = Inr (r = 0) \<and> op_ne sg st lhs rhs = Inr (r \<noteq> 0)"
  by (simp add: op_lt_def op_gt_def op_eq_def op_ne_def)

subsection \<open>Copying and destroying\<close>

lemma String_copy_no_counter:
  "this \<noteq> obj \<Longrightarrow> refcount (objs st obj) = None \<Longrightarrow>
     String_copy st this obj = Inr (st\<lparr>objs := (objs st)(this := objs st obj)\<rparr>)"
  by (simp add: String_copy_def alias_from_def)

lemma String_copy_counter:
  "this \<noteq> obj \<Longrightarrow> refcount (objs st obj) = Some r \<Longrightarrow> cells st r = Some c \<Longrightarrow>
     String_copy st this obj =
       Inr (st\<lparr>objs := (objs st)(this := objs st obj), cells := (cells st)(r \<mapsto> c + 1)\<rparr>)"
  by (simp add: String_copy_def alias_from_def)

lemma op_assign_release_copy:
  "this \<noteq> obj \<Longrightarrow>
     op_assign st this obj = ebind (String_dtor st this) (\<lambda>st1. String_copy st1 this obj)"
  by (simp add: op_assign_def String_dtor_def String_copy_def)

lemma op_assign_self: "op_assign st this this = Inr st"
  by (simp add: op_assign_def)

lemma dtor_not_owning:
  "\<not> own_memory (objs st this) \<Longrightarrow> String_dtor st this = Inr st"
  by (simp add: String_dtor_def release_noop)

lemma dtor_keep:
  "own_memory (objs st this) \<Longrightarrow> refcount (objs st this) = Some r \<Longrightarrow>
   cells st r = Some c \<Longrightarrow> c - 1 \<noteq> 0 \<Longrightarrow>
     String_dtor st this = Inr (st\<lparr>cells := (cells st)(r \<mapsto> c - 1)\<rparr>)"
  by (simp add: String_dtor_def release_data_if_needed_def)

lemma dtor_free:
  "own_memory (objs st this) \<Longrightarrow> refcount (objs st this) = Some r \<Longrightarrow>
   cells st r = Some c \<Longrightarrow> c - 1 = 0 \<Longrightarrow>
   data (objs st this) = Ptr b 0 \<Longrightarrow> Ptr b 0 \<noteq> nullptr \<Longrightarrow> chars st b \<noteq> None \<Longrightarrow>
     String_dtor st this =
       Inr (st\<lparr>cells := (cells st)(r \<mapsto> 0), chars := (chars st)(b := None)\<rparr>)"
  by (simp add: String_dtor_def release_data_if_needed_def free_def)

lemma contents_cong:
  "chars st' = chars st \<Longrightarrow> contents st' s = contents st s"
  "chars st' = chars st \<Longrightarrow> valid_string st' s = valid_string st s"
  by (simp_all add: contents_def valid_string_def readable_def)

lemma copy_then_destroy:
  assumes ne: "a \<noteq> b" and own: "own_memory (objs st a)"
    and r: "refcount (objs st a) = Some r" and c: "cells st r = Some c" and nz: "c \<noteq> 0"
  shows "\<exists>st1 st2. String_copy st b a = Inr st1 \<and> String_dtor st1 a = Inr st2 \<and>
     objs st2 b = objs st a \<and> chars st2 = chars st \<and> cells st2 r = Some c \<and>
     contents st2 (objs st2 b) = contents st (objs st a) \<and>
     valid_string st2 (objs st2 b) = valid_string st (objs st a)"
proof -
  let ?st1 = "st\<lparr>objs := (objs st)(b := objs st a), cells := (cells st)(r \<mapsto> c + 1)\<rparr>"
  let ?st2 = "?st1\<lparr>cells := (cells ?st1)(r \<mapsto> c + 1 - 1)\<rparr>"
  have 1: "String_copy st b a = Inr ?st1"
    using ne r c by (simp add: String_copy_counter)
  have 2: "String_dtor ?st1 a = Inr ?st2"
    using ne own r nz by (intro dtor_keep) simp_all
  have 3: "objs ?st2 b = objs st a" "chars ?st2 = chars st" "cells ?st2 r = Some c"
    by simp_all
  from 1 2 3 contents_cong [OF 3(2)] show ?thesis by (metis (no_types))
qed


lemma op_assign_effect:
  assumes ne: "this \<noteq> obj" and ok: "op_assign st this obj = Inr st'"
  shows "objs st' this = objs st obj \<and>
     (\<forall>r. refcount (objs st obj) = Some r \<longrightarrow>
        (\<exists>st1 c. String_dtor st this = Inr st1 \<and> cells st1 r = Some c \<and>
           cells st' r = Some (c + 1)))"
proof -
  from ok ne obtain st1 where d: "String_dtor st this = Inr st1"
    and c: "String_copy st1 this obj = Inr st'"
    by (auto simp: op_assign_release_copy ebind_Inr_iff)
  from d have o: "objs st1 = objs st"
    using release_frame [of st this st1] by (simp add: String_dtor_def)
  from c ne o d show ?thesis
    by (auto simp: String_copy_def alias_from_def Let_def split: option.splits)
qed

subsection \<open>Building the concatenation\<close>

lemma contents_bytes_at: "contents st s = bytes_at st (data s) (unat (size_m s))"
  by (simp add: contents_def bytes_at_def)

lemma length_bytes_at: "n = 0 \<or> readable st p n \<Longrightarrow> length (bytes_at st p n) = n"
  by (auto simp: bytes_at_def readable_def split: option.splits)

lemma load_n_readable:
  "n = 0 \<or> readable st p n \<Longrightarrow> load_n st p n = Inr (bytes_at st p n)"
  by (auto simp: load_n_def bytes_at_def readable_def split: option.splits)

lemma store_n_ok:
  assumes "chars st b = Some bs" and "i + length xs \<le> length bs"
  shows "store_n st (Ptr b i) xs =
     Inr (st\<lparr>chars := (chars st)(b \<mapsto> take i bs @ xs @ drop (i + length xs) bs)\<rparr>)"
proof (cases "xs = []")
  case True
  have "(chars st)(b \<mapsto> bs) = chars st" using assms(1) by (rule map_upd_triv)
  with True show ?thesis by (simp add: store_n_def)
next
  case False
  with assms show ?thesis by (simp add: store_n_def)
qed

lemma build_buffer:
  assumes f: "chars st (fresh st) = None"
    and r1: "n1 = 0 \<or> readable st p1 n1" and r2: "n2 = 0 \<or> readable st p2 n2"
  shows "ebind (memcpy (fst (malloc st (n1 + n2))) (Ptr (fresh st) 0) p1 n1)
           (\<lambda>st2. memcpy st2 (Ptr (fresh st) n1) p2 n2) =
         Inr (st\<lparr>chars := (chars st)(fresh st \<mapsto> bytes_at st p1 n1 @ bytes_at st p2 n2),
                fresh := Suc (fresh st)\<rparr>)"
proof -
  let ?f = "fresh st"
  let ?junk = "map (junk8 st) [0..<n1 + n2]"
  let ?st1 = "fst (malloc st (n1 + n2))"
  let ?xs = "bytes_at st p1 n1" and ?ys = "bytes_at st p2 n2"
  have st1: "?st1 = st\<lparr>chars := (chars st)(?f \<mapsto> ?junk), fresh := Suc ?f\<rparr>"
    by (simp add: malloc_def)
  have lx: "length ?xs = n1" and ly: "length ?ys = n2"
    using r1 r2 by (simp_all add: length_bytes_at)
  have keep: "n = 0 \<or> readable st' p n" "bytes_at st' p n = bytes_at st p n"
    if "n = 0 \<or> readable st p n" "\<And>b. b \<noteq> ?f \<Longrightarrow> chars st' b = chars st b" for st' p n
  proof -
    show "n = 0 \<or> readable st' p n"
      using that f by (cases "blk p = ?f") (auto simp: readable_def)
    show "bytes_at st' p n = bytes_at st p n"
      using that f by (cases "blk p = ?f") (auto simp: readable_def bytes_at_def split: option.splits)
  qed
  let ?st2 = "?st1\<lparr>chars := (chars ?st1)(?f \<mapsto> ?xs @ drop n1 ?junk)\<rparr>"
  have l1: "load_n ?st1 p1 n1 = Inr ?xs"
    using keep [OF r1, of ?st1] by (simp add: load_n_readable st1)
  have s1: "store_n ?st1 (Ptr ?f 0) ?xs = Inr ?st2"
    using store_n_ok [of ?st1 ?f ?junk 0 ?xs] lx by (simp add: st1)
  have m1: "memcpy ?st1 (Ptr ?f 0) p1 n1 = Inr ?st2"
    by (simp add: memcpy_def l1 s1)
  have l2: "load_n ?st2 p2 n2 = Inr ?ys"
    using keep [OF r2, of ?st2] by (simp add: load_n_readable st1)
  have s2: "store_n ?st2 (Ptr ?f n1) ?ys =
      Inr (?st2\<lparr>chars := (chars ?st2)(?f \<mapsto> ?xs @ ?ys)\<rparr>)"
    using store_n_ok [of ?st2 ?f "?xs @ drop n1 ?junk" n1 ?ys] lx ly by (simp add: st1)
  have m2: "memcpy ?st2 (Ptr ?f n1) p2 n2 = Inr (?st2\<lparr>chars := (chars ?st2)(?f \<mapsto> ?xs @ ?ys)\<rparr>)"
    by (simp add: memcpy_def l2 s2)
  show ?thesis
    unfolding m1 ebind_simps m2 by (simp add: st1)
qed


lemma readable_shorter: "readable st p n \<Longrightarrow> m \<le> n \<Longrightarrow> readable st p m"
  by (auto simp: readable_def split: option.splits)

lemma bytes_at_butlast:
  "readable st p n \<Longrightarrow> bytes_at st p (n - 1) = butlast (bytes_at st p n)"
  by (auto simp: readable_def bytes_at_def butlast_take split: option.splits)

lemma u32_pred_sum:
  assumes "(a::u32) < a + b" and "b < a + b"
  shows "a \<noteq> 0" and "b \<noteq> 0" and "unat (a - 1) = unat a - 1"
    and "unat (a - 1 + b) = unat a - 1 + unat b" and "unat (a + b) = unat a + unat b"
proof -
  show a: "a \<noteq> 0" using assms(2) by auto
  show "b \<noteq> 0" using assms(1) by auto
  show s: "unat (a + b) = unat a + unat b" using assms(1) by (rule u32_sum_exact)
  show p: "unat (a - 1) = unat a - 1" using a by (simp add: unat_minus_one)
  have pos: "0 < unat a" using a by (simp add: unat_gt_0)
  have "unat (a - 1) + unat b < 2 ^ LENGTH(32)"
    using s pos unsigned_less [of "a + b", where 'a = nat] unfolding p by simp
  then have "unat (a - 1 + b) = unat (a - 1) + unat b"
    by (rule unat_add_lem [THEN iffD1])
  with p show "unat (a - 1 + b) = unat a - 1 + unat b" by simp
qed

lemma ebind_assoc: "ebind (ebind m f) g = ebind m (\<lambda>x. ebind (f x) g)"
  by (cases m) simp_all

lemma build_case:
  assumes f: "chars st (fresh st) = None"
    and r1: "n1 = 0 \<or> readable st p1 n1" and r2: "n2 = 0 \<or> readable st p2 n2"
    and N: "N = n1 + n2" and q: "q (Ptr (fresh st) 0) = Ptr (fresh st) n1"
  shows "(case malloc st N of (st1, new_data) \<Rightarrow>
            ebind (memcpy st1 new_data p1 n1) (\<lambda>st2.
            ebind (memcpy st2 (q new_data) p2 n2) (\<lambda>st3.
              Inr (st3, new_data, z)))) =
         Inr (st\<lparr>chars := (chars st)(fresh st \<mapsto> bytes_at st p1 n1 @ bytes_at st p2 n2),
                fresh := Suc (fresh st)\<rparr>, Ptr (fresh st) 0, z)"
proof -
  have "(case malloc st N of (st1, new_data) \<Rightarrow>
            ebind (memcpy st1 new_data p1 n1) (\<lambda>st2.
            ebind (memcpy st2 (q new_data) p2 n2) (\<lambda>st3.
              Inr (st3, new_data, z)))) =
        ebind (ebind (memcpy (fst (malloc st (n1 + n2))) (Ptr (fresh st) 0) p1 n1)
           (\<lambda>st2. memcpy st2 (Ptr (fresh st) n1) p2 n2))
          (\<lambda>st3. Inr (st3, Ptr (fresh st) 0, z))"
    by (simp add: split_beta N q ebind_assoc)
  then show ?thesis
    unfolding build_buffer [OF f r1 r2] by simp
qed

lemma op_plus_eq_unfold:
  assumes ok: "size_m (objs st this) < size_m (objs st this) + size_m (objs st str) \<and>
               size_m (objs st str) < size_m (objs st this) + size_m (objs st str)"
    and vs: "valid_string st (objs st this)" and vt: "valid_string st (objs st str)"
    and f: "chars st (fresh st) = None"
  shows "op_plus_eq st this str =
     ebind (release_data_if_needed
              (st\<lparr>chars := (chars st)(fresh st \<mapsto>
                     concat_bytes (contents st (objs st this)) (contents st (objs st str))),
                   fresh := Suc (fresh st)\<rparr>) this)
       (\<lambda>st4. Inr (st4\<lparr>fresh := Suc (fresh st4), cells := (cells st4)(fresh st4 \<mapsto> 1),
                       objs := (objs st4)(this :=
                         \<lparr>size_m = (if last (contents st (objs st this)) = 0
                                     then size_m (objs st this) - 1 + size_m (objs st str)
                                     else size_m (objs st this) + size_m (objs st str)),
                          data = Ptr (fresh st) 0, own_memory = True,
                          refcount = Some (fresh st4)\<rparr>)\<rparr>))"
proof -
  let ?s = "objs st this" and ?t = "objs st str"
  let ?xs = "contents st ?s" and ?ys = "contents st ?t"
  let ?a = "size_m ?s" and ?b = "size_m ?t"
  from ok have lt: "?a < ?a + ?b" "?b < ?a + ?b" by simp_all
  note u = u32_pred_sum [OF lt]
  have pos: "0 < ?a" using u(1) by (simp add: word_greater_zero_iff)
  have rs: "readable st (data ?s) (unat ?a)" and rt: "readable st (data ?t) (unat ?b)"
    using vs vt u(1,2) by (simp_all add: valid_string_def)
  have ne: "?xs \<noteq> []"
    using length_contents [OF vs] u(1) by (auto simp: unat_eq_0)
  have nt: "null_terminated st ?s = Inr (last ?xs = 0)"
    using null_terminated_valid [OF vs] pos by simp
  have ys: "bytes_at st (data ?t) (unat ?b) = ?ys"
    by (simp add: contents_bytes_at)
  have r2: "unat ?b = 0 \<or> readable st (data ?t) (unat ?b)" using rt by simp
  show ?thesis
  proof (cases "last ?xs = 0")
    case True
    have r1: "unat (?a - 1) = 0 \<or> readable st (data ?s) (unat (?a - 1))"
      using readable_shorter [OF rs, of "unat ?a - 1"] u(3) by simp
    have xs: "bytes_at st (data ?s) (unat (?a - 1)) = butlast ?xs"
      using bytes_at_butlast [OF rs] u(3) by (simp add: contents_bytes_at)
    have cb: "butlast ?xs @ ?ys = concat_bytes ?xs ?ys"
      using True ne by (simp add: concat_bytes_def)
    have sz: "unat (?a - 1 + ?b) = unat (?a - 1) + unat ?b" using u(3,4) by simp
    have pt: "(\<lambda>d. ptr_sub (ptr_add d (unat ?a)) 1) (Ptr (fresh st) 0) =
        Ptr (fresh st) (unat (?a - 1))"
      using u(3) by (simp add: ptr_sub_def ptr_add_def)
    note B = build_case [OF f r1 r2 sz, of "\<lambda>d. ptr_sub (ptr_add d (unat ?a)) 1", OF pt,
        unfolded xs ys cb]
    show ?thesis
      unfolding op_plus_eq_def Let_def
      by (simp only: ok if_True nt ebind_simps True B)
         (simp add: malloc_cell_def True)
  next
    case False
    have r1: "unat ?a = 0 \<or> readable st (data ?s) (unat ?a)" using rs by simp
    have xs: "bytes_at st (data ?s) (unat ?a) = ?xs"
      by (simp add: contents_bytes_at)
    have cb: "?xs @ ?ys = concat_bytes ?xs ?ys"
      using False by (simp add: concat_bytes_def)
    have pt: "(\<lambda>d. ptr_add d (unat ?a)) (Ptr (fresh st) 0) = Ptr (fresh st) (unat ?a)"
      by (simp add: ptr_add_def)
    note B = build_case [OF f r1 r2 u(5), of "\<lambda>d. ptr_add d (unat ?a)", OF pt,
        unfolded xs ys cb]
    show ?thesis
      unfolding op_plus_eq_def Let_def
      by (simp only: ok if_True nt ebind_simps False if_False B)
         (simp add: malloc_cell_def False)
  qed
qed


lemma release_effect:
  assumes "release_data_if_needed st this = Inr st'"
  shows "objs st' = objs st" and "fresh st' = fresh st"
    and "\<And>b. b \<noteq> blk (data (objs st this)) \<Longrightarrow> chars st' b = chars st b"
    and "chars st' (blk (data (objs st this))) = chars st (blk (data (objs st this))) \<or>
         chars st' (blk (data (objs st this))) = None \<and> own_memory (objs st this) \<and>
         (\<exists>q c. refcount (objs st this) = Some q \<and> cells st q = Some c \<and> c - 1 = 0)"
    and "own_memory (objs st this) \<and> refcount (objs st this) \<noteq> None \<Longrightarrow>
         \<exists>q c. refcount (objs st this) = Some q \<and> cells st q = Some c \<and>
           cells st' = (cells st)(q \<mapsto> c - 1) \<and> (c - 1 \<noteq> 0 \<longrightarrow> chars st' = chars st)"
    and "\<not> (own_memory (objs st this) \<and> refcount (objs st this) \<noteq> None) \<Longrightarrow> st' = st"
    and "\<And>q c. own_memory (objs st this) \<Longrightarrow> refcount (objs st this) = Some q \<Longrightarrow>
           cells st q = Some c \<Longrightarrow> c - 1 = 0 \<Longrightarrow> data (objs st this) \<noteq> nullptr \<Longrightarrow>
           chars st' (blk (data (objs st this))) = None"
  using assms
  by (auto simp: release_data_if_needed_def Let_def free_def split: if_splits option.splits)

lemma length_concat_bytes:
  "length (concat_bytes xs ys) =
     (if xs \<noteq> [] \<and> last xs = 0 then length xs - 1 else length xs) + length ys"
  by (simp add: concat_bytes_def)

lemma op_plus_eq_result:
  assumes f: "chars st (fresh st) = None"
    and vs: "valid_string st (objs st this)" and vt: "valid_string st (objs st str)"
    and r: "op_plus_eq st this str = Inr st'"
  shows "size_m (objs st' this) =
       (if last (contents st (objs st this)) = 0
        then size_m (objs st this) - 1 + size_m (objs st str)
        else size_m (objs st this) + size_m (objs st str))"
    and "data (objs st' this) = Ptr (fresh st) 0"
    and "chars st' (fresh st) =
       Some (concat_bytes (contents st (objs st this)) (contents st (objs st str)))"
    and "unat (size_m (objs st' this)) =
       length (concat_bytes (contents st (objs st this)) (contents st (objs st str)))"
proof -
  let ?s = "objs st this" and ?t = "objs st str"
  let ?xs = "contents st ?s" and ?ys = "contents st ?t"
  let ?a = "size_m ?s" and ?b = "size_m ?t"
  let ?st3 = "st\<lparr>chars := (chars st)(fresh st \<mapsto> concat_bytes ?xs ?ys),
                fresh := Suc (fresh st)\<rparr>"
  have ok: "?a < ?a + ?b \<and> ?b < ?a + ?b"
    using r op_plus_eq_assert_fails [of st this str] by auto
  then have lt: "?a < ?a + ?b" "?b < ?a + ?b" by simp_all
  note u = u32_pred_sum [OF lt]
  from r obtain st4 where rel: "release_data_if_needed ?st3 this = Inr st4"
    and st': "st' = st4\<lparr>fresh := Suc (fresh st4), cells := (cells st4)(fresh st4 \<mapsto> 1),
                       objs := (objs st4)(this :=
                         \<lparr>size_m = (if last ?xs = 0 then ?a - 1 + ?b else ?a + ?b),
                          data = Ptr (fresh st) 0, own_memory = True,
                          refcount = Some (fresh st4)\<rparr>)\<rparr>"
    unfolding op_plus_eq_unfold [OF ok vs vt f] by (auto simp: ebind_Inr_iff)
  show sz: "size_m (objs st' this) = (if last ?xs = 0 then ?a - 1 + ?b else ?a + ?b)"
    and "data (objs st' this) = Ptr (fresh st) 0"
    by (simp_all add: st')
  have live: "chars st (blk (data ?s)) \<noteq> None"
    using vs u(1) by (auto simp: valid_string_def readable_def split: option.splits)
  with f have "fresh st \<noteq> blk (data ?s)" by auto
  with release_effect(3) [OF rel, of "fresh st"]
  have "chars st4 (fresh st) = Some (concat_bytes ?xs ?ys)" by simp
  then show "chars st' (fresh st) = Some (concat_bytes ?xs ?ys)"
    by (simp add: st')
  have ne: "?xs \<noteq> []" using length_contents [OF vs] u(1) by (auto simp: unat_eq_0)
  show "unat (size_m (objs st' this)) = length (concat_bytes ?xs ?ys)"
    unfolding sz length_concat_bytes length_contents [OF vs] length_contents [OF vt]
    using ne u(4,5) by simp
qed

lemma contents_whole_block:
  "data s = Ptr b 0 \<Longrightarrow> chars st b = Some bs \<Longrightarrow> unat (size_m s) = length bs \<Longrightarrow>
     contents st s = bs \<and> valid_string st s"
  by (simp add: contents_def valid_string_def readable_def)

subsection \<open>The concrete store\<close>

lemma ex_state_facts:
  "objs ex_state 1 = \<lparr>size_m = 3, data = Ptr 1 0, own_memory = True, refcount = Some 2\<rparr>"
  "objs ex_state 2 = view (Ptr 3 0) 2"
  "chars ex_state 1 = Some [0x61, 0x62, 0]"
  "chars ex_state 3 = Some [0x63, 0x64]"
  "cells ex_state 2 = Some 1"
  "fresh ex_state = 20"
  "chars ex_state 20 = None"
  by (simp_all add: ex_state_def)

lemma ex_state_strings:
  "valid_string ex_state (objs ex_state 1)" "valid_string ex_state (objs ex_state 2)"
  "contents ex_state (objs ex_state 1) = [0x61, 0x62, 0]"
  "contents ex_state (objs ex_state 2) = [0x63, 0x64]"
  unfolding ex_state_facts(1,2) valid_string_def readable_def contents_def view_def
  using ex_state_facts(3,4) by simp_all

lemma ex_state_concat:
  "op_plus_eq ex_state 1 2 =
     Inr (ex_state\<lparr>fresh := 22, cells := (cells ex_state)(2 \<mapsto> 0, 21 \<mapsto> 1),
            chars := (chars ex_state)(20 \<mapsto> [0x61, 0x62, 0x63, 0x64], 1 := None),
            objs := (objs ex_state)(1 :=
              \<lparr>size_m = 4, data = Ptr 20 0, own_memory = True, refcount = Some 21\<rparr>)\<rparr>)"
proof -
  have ok: "size_m (objs ex_state 1) < size_m (objs ex_state 1) + size_m (objs ex_state 2) \<and>
            size_m (objs ex_state 2) < size_m (objs ex_state 1) + size_m (objs ex_state 2)"
    unfolding ex_state_facts(1,2) by (simp add: view_def)
  have f: "chars ex_state (fresh ex_state) = None"
    by (simp add: ex_state_facts)
  have cb: "concat_bytes [0x61, 0x62, 0] [0x63, 0x64] = [0x61, 0x62, 0x63, 0x64 :: u8]"
    by (simp add: concat_bytes_def)
  show ?thesis
    unfolding op_plus_eq_unfold [OF ok ex_state_strings(1,2) f] ex_state_strings(3,4) cb
    unfolding release_data_if_needed_def free_def Let_def
    using ex_state_facts
    by (simp add: nullptr_def view_def)
qed

subsection \<open>When concatenation returns\<close>

lemma op_plus_eq_returns:
  assumes ok: "size_m (objs st this) < size_m (objs st this) + size_m (objs st str) \<and>
               size_m (objs st str) < size_m (objs st this) + size_m (objs st str)"
    and vs: "valid_string st (objs st this)" and vt: "valid_string st (objs st str)"
    and f: "chars st (fresh st) = None"
    and rel: "\<not> (own_memory (objs st this) \<and> refcount (objs st this) \<noteq> None) \<or>
       (\<exists>q c. refcount (objs st this) = Some q \<and> cells st q = Some c \<and>
          (c - 1 = 0 \<longrightarrow> off (data (objs st this)) = 0))"
  shows "\<exists>st'. op_plus_eq st this str = Inr st'"
proof -
  let ?s = "objs st this"
  let ?st3 = "st\<lparr>chars := (chars st)(fresh st \<mapsto>
       concat_bytes (contents st ?s) (contents st (objs st str))), fresh := Suc (fresh st)\<rparr>"
  from ok have "size_m ?s \<noteq> 0" by auto
  with vs have live: "chars st (blk (data ?s)) \<noteq> None"
    by (auto simp: valid_string_def readable_def split: option.splits)
  with f have ne: "blk (data ?s) \<noteq> fresh st" by auto
  have "\<exists>st4. release_data_if_needed ?st3 this = Inr st4"
    using rel live ne
    by (auto simp: release_data_if_needed_def Let_def free_def)
  then show ?thesis
    unfolding op_plus_eq_unfold [OF ok vs vt f] by (auto simp: ebind_Inr_iff)
qed

lemma ex_shared_facts:
  "objs ex_shared 1 = \<lparr>size_m = 3, data = Ptr 1 0, own_memory = True, refcount = Some 2\<rparr>"
  "objs ex_shared 2 = view (Ptr 3 0) 2"
  "objs ex_shared 6 = \<lparr>size_m = 3, data = Ptr 1 0, own_memory = True, refcount = Some 2\<rparr>"
  "chars ex_shared = chars ex_state"
  "cells ex_shared 2 = Some 2"
  "fresh ex_shared = 20"
  "heap_ok ex_shared"
  by (auto simp: ex_shared_def ex_state_def heap_ok_def)

lemma ex_shared_strings:
  "valid_string ex_shared (objs ex_shared 1)" "valid_string ex_shared (objs ex_shared 2)"
  "contents ex_shared (objs ex_shared 1) = [0x61, 0x62, 0]"
  "contents ex_shared (objs ex_shared 2) = [0x63, 0x64]"
  "contents ex_shared (objs ex_shared 6) = [0x61, 0x62, 0]"
  unfolding ex_shared_facts(1,2,3) valid_string_def readable_def contents_def view_def
    ex_shared_facts(4)
  using ex_state_facts(3,4) by simp_all

subsection \<open>The result of an expression a + b\<close>

lemma op_plus_eq_frame:
  assumes f: "chars st (fresh st) = None"
    and vs: "valid_string st (objs st this)" and vt: "valid_string st (objs st str)"
    and r: "op_plus_eq st this str = Inr st'"
  shows "own_memory (objs st' this)" and "refcount (objs st' this) = Some (Suc (fresh st))"
    and "cells st' (Suc (fresh st)) = Some 1"
    and "\<And>x. x \<noteq> this \<Longrightarrow> objs st' x = objs st x"
    and "\<not> (own_memory (objs st this) \<and> refcount (objs st this) \<noteq> None) \<Longrightarrow>
         (\<forall>b. b \<noteq> fresh st \<longrightarrow> chars st' b = chars st b) \<and>
         (\<forall>q. q \<noteq> Suc (fresh st) \<longrightarrow> cells st' q = cells st q)"
    and "\<And>q c. own_memory (objs st this) \<Longrightarrow> refcount (objs st this) = Some q \<Longrightarrow>
         cells st q = Some c \<Longrightarrow> c - 1 \<noteq> 0 \<Longrightarrow> q \<noteq> Suc (fresh st) \<Longrightarrow>
         (\<forall>b. b \<noteq> fresh st \<longrightarrow> chars st' b = chars st b) \<and>
         (\<forall>p. p \<noteq> Suc (fresh st) \<longrightarrow> cells st' p = ((cells st)(q \<mapsto> c - 1)) p)"
proof -
  let ?s = "objs st this" and ?t = "objs st str"
  let ?xs = "contents st ?s" and ?ys = "contents st ?t"
  let ?a = "size_m ?s" and ?b = "size_m ?t"
  let ?f = "fresh st"
  let ?st3 = "st\<lparr>chars := (chars st)(?f \<mapsto> concat_bytes ?xs ?ys), fresh := Suc ?f\<rparr>"
  have ok: "?a < ?a + ?b \<and> ?b < ?a + ?b"
    using r op_plus_eq_assert_fails [of st this str] by auto
  from r obtain st4 where rel: "release_data_if_needed ?st3 this = Inr st4"
    and st': "st' = st4\<lparr>fresh := Suc (fresh st4), cells := (cells st4)(fresh st4 \<mapsto> 1),
                       objs := (objs st4)(this :=
                         \<lparr>size_m = (if last ?xs = 0 then ?a - 1 + ?b else ?a + ?b),
                          data = Ptr ?f 0, own_memory = True,
                          refcount = Some (fresh st4)\<rparr>)\<rparr>"
    unfolding op_plus_eq_unfold [OF ok vs vt f] by (auto simp: ebind_Inr_iff)
  note E = release_effect [OF rel]
  have f4: "fresh st4 = Suc ?f" using E(2) by simp
  have o4: "objs st4 = objs st" using E(1) by simp
  show "own_memory (objs st' this)" "refcount (objs st' this) = Some (Suc ?f)"
    "cells st' (Suc ?f) = Some 1"
    by (simp_all add: st' f4)
  show "objs st' x = objs st x" if "x \<noteq> this" for x
    using that by (simp add: st' o4)
  show "(\<forall>b. b \<noteq> ?f \<longrightarrow> chars st' b = chars st b) \<and>
        (\<forall>q. q \<noteq> Suc ?f \<longrightarrow> cells st' q = cells st q)"
    if "\<not> (own_memory ?s \<and> refcount ?s \<noteq> None)"
  proof -
    from E(6) that have "st4 = ?st3" by simp
    then show ?thesis by (simp add: st')
  qed
  show "(\<forall>b. b \<noteq> ?f \<longrightarrow> chars st' b = chars st b) \<and>
        (\<forall>p. p \<noteq> Suc ?f \<longrightarrow> cells st' p = ((cells st)(q \<mapsto> c - 1)) p)"
    if "own_memory ?s" "refcount ?s = Some q" "cells st q = Some c" "c - 1 \<noteq> 0" "q \<noteq> Suc ?f"
    for q c
  proof -
    from E(5) that have "cells st4 = (cells st)(q \<mapsto> c - 1)" "chars st4 = chars ?st3"
      by auto
    then show ?thesis by (simp add: st' f4)
  qed
qed

lemma String_copy_frame:
  assumes "String_copy st this obj = Inr st'"
  shows "chars st' = chars st" and "fresh st' = fresh st"
    and "this \<noteq> obj \<Longrightarrow> refcount (objs st obj) = None \<Longrightarrow> cells st' = cells st"
    and "\<And>q. this \<noteq> obj \<Longrightarrow> refcount (objs st obj) = Some q \<Longrightarrow>
           \<exists>c. cells st q = Some c \<and> cells st' = (cells st)(q \<mapsto> c + 1)"
  using assms
  by (auto simp: String_copy_def alias_from_def Let_def split: if_splits option.splits)

lemma plus_expr_result:
  assumes h: "heap_ok st"
    and va: "valid_string st (objs st a)" and vb: "valid_string st (objs st b)"
    and d: "lhs \<noteq> a" "lhs \<noteq> b" "ret \<noteq> lhs"
    and r: "plus_expr st a b lhs ret = Inr st'"
  shows "contents st' (objs st' ret) =
       concat_bytes (contents st (objs st a)) (contents st (objs st b))"
    and "valid_string st' (objs st' ret)"
    and "size_m (objs st' ret) =
       (if last (contents st (objs st a)) = 0
        then size_m (objs st a) - 1 + size_m (objs st b)
        else size_m (objs st a) + size_m (objs st b))"
    and "ret \<noteq> a \<Longrightarrow> objs st' a = objs st a"
    and "\<And>q c. own_memory (objs st a) \<Longrightarrow> refcount (objs st a) = Some q \<Longrightarrow>
           cells st q = Some c \<Longrightarrow> c \<noteq> 0 \<Longrightarrow>
           cells st' q = Some c \<and> (\<forall>k. k \<noteq> fresh st \<longrightarrow> chars st' k = chars st k)"
proof -
  let ?f = "fresh st"
  from h have f: "chars st ?f = None"
    and hc: "\<And>q c. cells st q = Some c \<Longrightarrow> q < ?f"
    by (auto simp: heap_ok_def not_le [symmetric])
  from r obtain st1 st2 where 1: "String_copy st lhs a = Inr st1"
    and 2: "op_plus st1 lhs b ret = Inr st2" and 3: "String_dtor st2 lhs = Inr st'"
    by (auto simp: plus_expr_def ebind_Inr_iff)
  from 2 obtain st3 where 4: "op_plus_eq st1 lhs b = Inr st3"
    and 5: "String_copy st3 ret lhs = Inr st2"
    by (auto simp: op_plus_def ebind_Inr_iff)
  note C1 = String_copy_frame [OF 1] and O1 = String_copy_objs [OF 1]
  have o1: "objs st1 lhs = objs st a" "objs st1 b = objs st b" "objs st1 a = objs st a"
    using O1 d by simp_all
  have f1: "chars st1 (fresh st1) = None" using C1 f by simp
  have v1: "valid_string st1 (objs st1 lhs)" "valid_string st1 (objs st1 b)"
    unfolding o1 contents_cong(2) [OF C1(1)] using va vb by simp_all
  have k1: "contents st1 (objs st1 lhs) = contents st (objs st a)"
    "contents st1 (objs st1 b) = contents st (objs st b)"
    unfolding o1 contents_cong(1) [OF C1(1)] by simp_all
  note R = op_plus_eq_result [OF f1 v1 4, unfolded o1 contents_cong(1) [OF C1(1)] C1(2)]
  note F = op_plus_eq_frame [OF f1 v1 4, unfolded o1 C1(2)]
  note C5 = String_copy_frame [OF 5] and O5 = String_copy_objs [OF 5]
  have o2: "objs st2 ret = objs st3 lhs" "objs st2 lhs = objs st3 lhs"
    using O5 d by simp_all
  have c2: "cells st2 (Suc ?f) = Some 2"
    using C5(4) [OF d(3) F(2)] F(3) by auto
  have rel: "release_data_if_needed st2 lhs = Inr st'" using 3 by (simp add: String_dtor_def)
  have "2 - 1 \<noteq> (0::u32)" by simp
  with release_effect(5) [OF rel] F(1,2) c2
  have c': "chars st' = chars st2" unfolding o2 by auto
  have o': "objs st' = objs st2" using release_effect(1) [OF rel] .
  have c3: "chars st' = chars st3" using c' C5(1) by simp
  from contents_whole_block [OF R(2) R(3) R(4)]
  have w: "contents st3 (objs st3 lhs) =
      concat_bytes (contents st (objs st a)) (contents st (objs st b))"
    "valid_string st3 (objs st3 lhs)" by simp_all
  show "contents st' (objs st' ret) =
       concat_bytes (contents st (objs st a)) (contents st (objs st b))"
    and "valid_string st' (objs st' ret)"
    unfolding o' o2 contents_cong [OF c3] using w by simp_all
  show "size_m (objs st' ret) =
       (if last (contents st (objs st a)) = 0
        then size_m (objs st a) - 1 + size_m (objs st b)
        else size_m (objs st a) + size_m (objs st b))"
    unfolding o' o2 using R(1) .
  show "objs st' a = objs st a" if "ret \<noteq> a"
    unfolding o' using O5 that d F(4) [of a] o1 by simp
  show "cells st' q = Some c \<and> (\<forall>k. k \<noteq> ?f \<longrightarrow> chars st' k = chars st k)"
    if own: "own_memory (objs st a)" and q: "refcount (objs st a) = Some q"
      and c: "cells st q = Some c" and nz: "c \<noteq> 0" for q c
  proof -
    from hc [OF c] have qf: "q \<noteq> Suc ?f" by simp
    from C1(4) [OF d(1) q] c have k1: "cells st1 q = Some (c + 1)"
      "cells st1 = (cells st)(q \<mapsto> c + 1)" by simp_all
    have "c + 1 - 1 \<noteq> 0" using nz by simp
    from F(6) [OF own q k1(1) this qf]
    have a: "\<forall>k. k \<noteq> ?f \<longrightarrow> chars st3 k = chars st k"
      and b: "cells st3 q = Some c"
      using qf unfolding C1(1) by simp_all
    have "cells st2 q = Some c"
      using C5(4) [OF d(3) F(2)] b qf by auto
    moreover have "cells st' q = cells st2 q"
      using release_effect(5) [OF rel] F(1,2) qf unfolding o2 by auto
    ultimately show ?thesis using a c3 by simp
  qed
qed


lemma plus_expr_returns:
  assumes h: "heap_ok st"
    and va: "valid_string st (objs st a)" and vb: "valid_string st (objs st b)"
    and ok: "size_m (objs st a) < size_m (objs st a) + size_m (objs st b) \<and>
             size_m (objs st b) < size_m (objs st a) + size_m (objs st b)"
    and d: "lhs \<noteq> a" "lhs \<noteq> b" "ret \<noteq> lhs"
    and cnt: "refcount (objs st a) = None \<or>
       (\<exists>q c. refcount (objs st a) = Some q \<and> cells st q = Some c \<and> c \<noteq> 0)"
  shows "\<exists>st'. plus_expr st a b lhs ret = Inr st'"
proof -
  let ?f = "fresh st"
  from h have f: "chars st ?f = None" by (auto simp: heap_ok_def)
  from cnt obtain st1 where 1: "String_copy st lhs a = Inr st1"
    using d(1) by (auto simp: String_copy_def alias_from_def)
  note C1 = String_copy_frame [OF 1] and O1 = String_copy_objs [OF 1]
  have o1: "objs st1 lhs = objs st a" "objs st1 b = objs st b"
    using O1 d by simp_all
  have f1: "chars st1 (fresh st1) = None" using C1 f by simp
  have v1: "valid_string st1 (objs st1 lhs)" "valid_string st1 (objs st1 b)"
    unfolding o1 contents_cong(2) [OF C1(1)] using va vb by simp_all
  have ok1: "size_m (objs st1 lhs) < size_m (objs st1 lhs) + size_m (objs st1 b) \<and>
             size_m (objs st1 b) < size_m (objs st1 lhs) + size_m (objs st1 b)"
    unfolding o1 using ok .
  have rel: "\<not> (own_memory (objs st1 lhs) \<and> refcount (objs st1 lhs) \<noteq> None) \<or>
       (\<exists>q c. refcount (objs st1 lhs) = Some q \<and> cells st1 q = Some c \<and>
          (c - 1 = 0 \<longrightarrow> off (data (objs st1 lhs)) = 0))"
  proof (cases "refcount (objs st a)")
    case None
    then show ?thesis unfolding o1 by simp
  next
    case (Some q)
    with cnt obtain c where c: "cells st q = Some c" "c \<noteq> 0" by auto
    from C1(4) [OF d(1) Some] c have "cells st1 q = Some (c + 1)" by simp
    moreover have "c + 1 - 1 \<noteq> 0" using c(2) by simp
    ultimately show ?thesis unfolding o1 using Some by simp
  qed
  from op_plus_eq_returns [OF ok1 v1 f1 rel]
  obtain st3 where 4: "op_plus_eq st1 lhs b = Inr st3" by blast
  note F = op_plus_eq_frame [OF f1 v1 4]
  have 5: "String_copy st3 ret lhs =
      Inr (st3\<lparr>objs := (objs st3)(ret := objs st3 lhs),
              cells := (cells st3)(Suc (fresh st1) \<mapsto> 1 + 1)\<rparr>)"
    using d(3) F(2,3) by (rule String_copy_counter)
  let ?st2 = "st3\<lparr>objs := (objs st3)(ret := objs st3 lhs),
              cells := (cells st3)(Suc (fresh st1) \<mapsto> 1 + 1)\<rparr>"
  have "String_dtor ?st2 lhs = Inr (?st2\<lparr>cells := (cells ?st2)(Suc (fresh st1) \<mapsto> 1 + 1 - 1)\<rparr>)"
    using d(3) F(1,2) by (intro dtor_keep) simp_all
  with 1 4 5 show ?thesis
    by (simp add: plus_expr_def op_plus_def)
qed

subsection \<open>The effect of a concatenation on the store\<close>

lemma op_plus_eq_effect:
  assumes h: "heap_ok st"
    and vs: "valid_string st (objs st this)" and vt: "valid_string st (objs st str)"
    and r: "op_plus_eq st this str = Inr st'"
  shows "own_memory (objs st' this) \<and> data (objs st' this) = Ptr (fresh st) 0 \<and>
     chars st (fresh st) = None \<and>
     chars st' (fresh st) =
       Some (concat_bytes (contents st (objs st this)) (contents st (objs st str))) \<and>
     refcount (objs st' this) = Some (Suc (fresh st)) \<and>
     cells st (Suc (fresh st)) = None \<and> cells st' (Suc (fresh st)) = Some 1 \<and>
     (\<exists>st4. release_data_if_needed
              (st\<lparr>chars := (chars st)(fresh st \<mapsto>
                     concat_bytes (contents st (objs st this)) (contents st (objs st str))),
                   fresh := Suc (fresh st)\<rparr>) this = Inr st4 \<and>
        chars st' = chars st4 \<and> (\<forall>q. q \<noteq> Suc (fresh st) \<longrightarrow> cells st' q = cells st4 q)) \<and>
     (\<forall>b. b \<noteq> fresh st \<longrightarrow>
        chars st' b = chars st b \<or>
        chars st' b = None \<and> b = blk (data (objs st this)) \<and> own_memory (objs st this) \<and>
        (\<exists>q c. refcount (objs st this) = Some q \<and> cells st q = Some c \<and> c - 1 = 0)) \<and>
     (\<forall>q c. own_memory (objs st this) \<and> refcount (objs st this) = Some q \<and>
            cells st q = Some c \<longrightarrow>
        cells st' q = Some (c - 1) \<and>
        (c - 1 \<noteq> 0 \<longrightarrow> (\<forall>b. b \<noteq> fresh st \<longrightarrow> chars st' b = chars st b)) \<and>
        (c - 1 = 0 \<and> data (objs st this) \<noteq> nullptr \<longrightarrow>
           chars st' (blk (data (objs st this))) = None)) \<and>
     (\<forall>x. x \<noteq> this \<longrightarrow> objs st' x = objs st x) \<and>
     (\<forall>x. x \<noteq> this \<and> chars st (blk (data (objs st x))) \<noteq> None \<and>
          chars st' (blk (data (objs st x))) \<noteq> None \<longrightarrow>
        contents st' (objs st' x) = contents st (objs st x))"
proof -
  let ?s = "objs st this" and ?t = "objs st str"
  let ?xs = "contents st ?s" and ?ys = "contents st ?t"
  let ?a = "size_m ?s" and ?b = "size_m ?t"
  let ?f = "fresh st"
  let ?st3 = "st\<lparr>chars := (chars st)(?f \<mapsto> concat_bytes ?xs ?ys), fresh := Suc ?f\<rparr>"
  from h have f: "chars st ?f = None" and g: "cells st (Suc ?f) = None"
    and hc: "\<And>q c. cells st q = Some c \<Longrightarrow> q < ?f"
    by (auto simp: heap_ok_def not_le [symmetric])
  have ok: "?a < ?a + ?b \<and> ?b < ?a + ?b"
    using r op_plus_eq_assert_fails [of st this str] by auto
  from r obtain st4 where rel: "release_data_if_needed ?st3 this = Inr st4"
    and st': "st' = st4\<lparr>fresh := Suc (fresh st4), cells := (cells st4)(fresh st4 \<mapsto> 1),
                       objs := (objs st4)(this :=
                         \<lparr>size_m = (if last ?xs = 0 then ?a - 1 + ?b else ?a + ?b),
                          data = Ptr ?f 0, own_memory = True,
                          refcount = Some (fresh st4)\<rparr>)\<rparr>"
    unfolding op_plus_eq_unfold [OF ok vs vt f] by (auto simp: ebind_Inr_iff)
  note E = release_effect [OF rel]
  have o3: "objs ?st3 = objs st" "cells ?st3 = cells st" by simp_all
  have f4: "fresh st4 = Suc ?f" using E(2) by simp
  have o4: "objs st4 = objs st" using E(1) by simp
  have c': "chars st' = chars st4" by (simp add: st')
  have k': "\<And>q. q \<noteq> Suc ?f \<Longrightarrow> cells st' q = cells st4 q" by (simp add: st' f4)
  have 1: "own_memory (objs st' this)" "data (objs st' this) = Ptr ?f 0"
    "refcount (objs st' this) = Some (Suc ?f)" "cells st' (Suc ?f) = Some 1"
    by (simp_all add: st' f4)
  have 2: "chars st' ?f = Some (concat_bytes ?xs ?ys)"
    using op_plus_eq_result(3) [OF f vs vt r] .
  have 3: "chars st' b = chars st b \<or>
        chars st' b = None \<and> b = blk (data ?s) \<and> own_memory ?s \<and>
        (\<exists>q c. refcount ?s = Some q \<and> cells st q = Some c \<and> c - 1 = 0)"
    if "b \<noteq> ?f" for b
  proof (cases "b = blk (data ?s)")
    case True
    with E(4) that show ?thesis unfolding c' o3 True by auto
  next
    case False
    with E(3) [of b] that show ?thesis unfolding c' o3 by simp
  qed
  have 4: "cells st' q = Some (c - 1) \<and>
        (c - 1 \<noteq> 0 \<longrightarrow> (\<forall>b. b \<noteq> ?f \<longrightarrow> chars st' b = chars st b)) \<and>
        (c - 1 = 0 \<and> data ?s \<noteq> nullptr \<longrightarrow> chars st' (blk (data ?s)) = None)"
    if "own_memory ?s \<and> refcount ?s = Some q \<and> cells st q = Some c" for q c
  proof -
    from that hc have "q \<noteq> Suc ?f" by fastforce
    with E(5) that have a: "cells st' q = Some (c - 1) \<and>
        (c - 1 \<noteq> 0 \<longrightarrow> (\<forall>b. b \<noteq> ?f \<longrightarrow> chars st' b = chars st b))"
      unfolding c' o3 by (auto simp: k')
    have "chars st' (blk (data ?s)) = None" if "c - 1 = 0" "data ?s \<noteq> nullptr"
      using E(7) [of q c] \<open>own_memory ?s \<and> refcount ?s = Some q \<and> cells st q = Some c\<close> that
      unfolding c' o3 by simp
    with a show ?thesis by blast
  qed
  have 5: "objs st' x = objs st x" if "x \<noteq> this" for x
    using that by (simp add: st' o4)
  have 6: "contents st' (objs st' x) = contents st (objs st x)"
    if "x \<noteq> this \<and> chars st (blk (data (objs st x))) \<noteq> None \<and>
        chars st' (blk (data (objs st x))) \<noteq> None" for x
  proof -
    from that f have "blk (data (objs st x)) \<noteq> ?f" by auto
    from 3 [OF this] that have "chars st' (blk (data (objs st x))) = chars st (blk (data (objs st x)))"
      by auto
    with 5 that show ?thesis by (simp add: contents_def)
  qed
  from rel c' k' have 7: "\<exists>st4. release_data_if_needed ?st3 this = Inr st4 \<and>
        chars st' = chars st4 \<and> (\<forall>q. q \<noteq> Suc ?f \<longrightarrow> cells st' q = cells st4 q)"
    by blast
  from 1 2 f g 3 4 5 6 7 show ?thesis by blast
qed

lemma can_release_iff:
  "can_release st s \<longleftrightarrow>
     \<not> (own_memory s \<and> refcount s \<noteq> None) \<or>
     (\<exists>q c. refcount s = Some q \<and> cells st q = Some c \<and> (c - 1 = 0 \<longrightarrow> off (data s) = 0))"
  by (auto simp: can_release_def split: option.splits)

lemma op_plus_eq_total:
  assumes ok: "size_m (objs st this) < size_m (objs st this) + size_m (objs st str) \<and>
               size_m (objs st str) < size_m (objs st this) + size_m (objs st str)"
    and vs: "valid_string st (objs st this)" and vt: "valid_string st (objs st str)"
    and f: "chars st (fresh st) = None"
    and c: "can_release st (objs st this)"
  shows "\<exists>st'. op_plus_eq st this str = Inr st'"
  using op_plus_eq_returns [OF ok vs vt f] c unfolding can_release_iff by blast

lemma op_plus_total:
  assumes ok: "size_m (objs st this) < size_m (objs st this) + size_m (objs st str) \<and>
               size_m (objs st str) < size_m (objs st this) + size_m (objs st str)"
    and vs: "valid_string st (objs st this)" and vt: "valid_string st (objs st str)"
    and f: "chars st (fresh st) = None"
    and c: "can_release st (objs st this)"
  shows "\<exists>st'. op_plus st this str ret = Inr st'"
proof -
  from op_plus_eq_total [OF ok vs vt f c]
  obtain st1 where 1: "op_plus_eq st this str = Inr st1" by blast
  note F = op_plus_eq_frame [OF f vs vt 1]
  have "\<exists>st'. String_copy st1 ret this = Inr st'"
  proof (cases "ret = this")
    case True
    then show ?thesis by (simp add: String_copy_def)
  next
    case False
    from String_copy_counter [OF False F(2,3)] show ?thesis by blast
  qed
  with 1 show ?thesis by (simp add: op_plus_def)
qed

lemma ex_state_more:
  "heap_ok ex_state"
  "objs ex_state 8 = view (Ptr 5 0) 3"
  "valid_string ex_state (objs ex_state 8)"
  "contents ex_state (objs ex_state 8) = [0x61, 0x62, 0x63]"
  "chars ex_state 5 = Some [0x61, 0x62, 0x63, 0]"
  by (auto simp: ex_state_def heap_ok_def view_def valid_string_def readable_def contents_def)

section \<open>The claims\<close>

subsection \<open>C1: substr\<close>

text \<open>
  Claim C1. For every string of \<open>size\<close> bytes and all arguments,
  \<open>substr(offset, length, copy)\<close> fails with the message \<open>out of bound\<close> if and
  only if \<open>offset >= size\<close> or \<open>offset + length >= size\<close>, and otherwise returns a
  new string of \<open>length\<close> bytes at \<open>data + offset\<close>. The code does not do this: on
  the five bytes \<open>hello\<close>, with offset 1 and length \<open>0xFFFFFFFF\<close>, the sum of offset
  and length is far beyond the size, yet the call does not fail; it returns a view that
  claims \<open>0xFFFFFFFF\<close> bytes at \<open>data + 1\<close>. The assertion adds the two
  \<open>uint32_t\<close> values, and the wrapped sum 0 is below the size.
\<close>

theorem substr_accepts_wrapped_range:
  "contents ex_state (objs ex_state 12) = [0x68, 0x65, 0x6C, 0x6C, 0x6F] \<and>
   unat (size_m (objs ex_state 12)) = 5 \<and>
   unat (size_m (objs ex_state 12)) \<le> unat (1 :: u32) + unat (0xFFFFFFFF :: u32) \<and>
   substr ex_state 12 1 0xFFFFFFFF False 13 \<noteq> Inl (AssertFailed ''out of bound'') \<and>
   substr ex_state 12 1 0xFFFFFFFF False 13 =
     Inr (ex_state\<lparr>objs := (objs ex_state)(13 := view (Ptr 8 1) 0xFFFFFFFF)\<rparr>) \<and>
   \<not> valid_string ex_state (view (Ptr 8 1) 0xFFFFFFFF)"
proof -
  have o: "objs ex_state 12 = view (Ptr 8 0) 5" "objs ex_state 13 = view nullptr 0"
    and c: "chars ex_state 8 = Some [0x68, 0x65, 0x6C, 0x6C, 0x6F]"
    by (simp_all add: ex_state_def)
  have 1: "contents ex_state (objs ex_state 12) = [0x68, 0x65, 0x6C, 0x6C, 0x6F]"
    unfolding o by (simp add: c)
  have 5: "unat (size_m (objs ex_state 12)) = 5"
    unfolding o by (simp add: view_def)
  have 2: "(5::nat) \<le> unat (1 :: u32) + unat (0xFFFFFFFF :: u32)" by simp
  have 3: "substr ex_state 12 1 0xFFFFFFFF False 13 =
     Inr (ex_state\<lparr>objs := (objs ex_state)(13 := view (Ptr 8 1) 0xFFFFFFFF)\<rparr>)"
    unfolding substr_def String_from_def assign_def release_data_if_needed_def Let_def o
    by (simp add: view_def ptr_add_def)
  have 4: "\<not> valid_string ex_state (view (Ptr 8 1) 0xFFFFFFFF)"
    by (simp add: valid_string_def readable_def view_def c)
  from 1 5 2 3 4 show ?thesis by simp
qed

text \<open>What the code does instead: the test of the assertion is on 32-bit words, and when
  it passes the call is the from-pointer construction at the result's address. That
  constructor runs \<open>assign\<close>, which first releases whatever the members of the not yet
  constructed object hold; the call returns the new string, with no other effect, when
  they hold nothing to release.\<close>

lemma substr_word_check:
  "(substr st this offset n copy ret = Inl (AssertFailed ''out of bound'') \<longleftrightarrow>
      size_m (objs st this) \<le> offset \<or> size_m (objs st this) \<le> offset + n) \<and>
   (offset < size_m (objs st this) \<and> offset + n < size_m (objs st this) \<longrightarrow>
      substr st this offset n copy ret =
        String_from st ret (ptr_add (data (objs st this)) (unat offset)) n copy \<and>
      (\<forall>st'. substr st this offset n copy ret = Inr st' \<longrightarrow>
         size_m (objs st' ret) = n \<and> own_memory (objs st' ret) = copy \<and>
         (\<not> copy \<longrightarrow>
            data (objs st' ret) = ptr_add (data (objs st this)) (unat offset) \<and>
            refcount (objs st' ret) = None) \<and>
         (copy \<longrightarrow>
            data (objs st' ret) = Ptr (fresh st) 0 \<and>
            (\<exists>r. refcount (objs st' ret) = Some r \<and> cells st' r = Some 1))) \<and>
      (\<not> (own_memory (objs st ret) \<and> refcount (objs st ret) \<noteq> None) \<longrightarrow>
         substr st this offset n False ret =
           Inr (st\<lparr>objs := (objs st)(ret :=
                  view (ptr_add (data (objs st this)) (unat offset)) n)\<rparr>)) \<and>
      (\<not> (own_memory (objs st ret) \<and> refcount (objs st ret) \<noteq> None) \<and>
       chars st (fresh st) = None \<and>
       valid_string st (view (ptr_add (data (objs st this)) (unat offset)) n) \<longrightarrow>
         substr st this offset n True ret =
           Inr (st\<lparr>objs := (objs st)(ret :=
                    \<lparr>size_m = n, data = Ptr (fresh st) 0, own_memory = True,
                     refcount = Some (Suc (fresh st))\<rparr>),
                  chars := (chars st)(fresh st \<mapsto>
                    contents st (view (ptr_add (data (objs st this)) (unat offset)) n)),
                  cells := (cells st)(Suc (fresh st) \<mapsto> 1),
                  fresh := Suc (Suc (fresh st))\<rparr>)))"
proof -
  let ?s = "objs st this"
  let ?d = "ptr_add (data ?s) (unat offset)"
  let ?ok = "offset < size_m ?s \<and> offset + n < size_m ?s"
  have eq: "substr st this offset n c ret = String_from st ret ?d n c" if ?ok for c
    using that by (simp add: substr_def Let_def)
  have a: "substr st this offset n copy ret = Inl (AssertFailed ''out of bound'') \<longleftrightarrow>
      size_m ?s \<le> offset \<or> size_m ?s \<le> offset + n"
  proof (cases ?ok)
    case True
    then have "substr st this offset n copy ret \<noteq> Inl (AssertFailed ''out of bound'')"
      using assign_err [of st ret ?d n copy] by (auto simp: eq String_from_def)
    with True show ?thesis by (auto simp: not_le)
  next
    case False
    then have "substr st this offset n copy ret = Inl (AssertFailed ''out of bound'')"
      unfolding substr_def Let_def by (rule if_not_P)
    with False show ?thesis by (auto simp: not_le)
  qed
  have b: "\<forall>st'. substr st this offset n copy ret = Inr st' \<longrightarrow>
         size_m (objs st' ret) = n \<and> own_memory (objs st' ret) = copy \<and>
         (\<not> copy \<longrightarrow> data (objs st' ret) = ?d \<and> refcount (objs st' ret) = None) \<and>
         (copy \<longrightarrow> data (objs st' ret) = Ptr (fresh st) 0 \<and>
            (\<exists>r. refcount (objs st' ret) = Some r \<and> cells st' r = Some 1))" if ?ok
    using assign_fields [of st ret ?d n copy] unfolding eq [OF that] String_from_def by blast
  have c: "substr st this offset n False ret = Inr (st\<lparr>objs := (objs st)(ret := view ?d n)\<rparr>)"
    if ?ok "\<not> (own_memory (objs st ret) \<and> refcount (objs st ret) \<noteq> None)"
    using assign_view [OF that(2)] by (simp add: eq [OF that(1)] String_from_def)
  have d: "substr st this offset n True ret =
           Inr (st\<lparr>objs := (objs st)(ret :=
                    \<lparr>size_m = n, data = Ptr (fresh st) 0, own_memory = True,
                     refcount = Some (Suc (fresh st))\<rparr>),
                  chars := (chars st)(fresh st \<mapsto> contents st (view ?d n)),
                  cells := (cells st)(Suc (fresh st) \<mapsto> 1),
                  fresh := Suc (Suc (fresh st))\<rparr>)"
    if ?ok "\<not> (own_memory (objs st ret) \<and> refcount (objs st ret) \<noteq> None)"
      "chars st (fresh st) = None" "valid_string st (view ?d n)"
    using assign_copy [OF that(2,3,4)] by (simp add: eq [OF that(1)] String_from_def)
  from a eq b c d show ?thesis by blast
qed

lemma substr_word_check_examples:
  "size_m (objs ex_state 12) = 5 \<and>
   substr ex_state 12 2 3 False 13 = Inl (AssertFailed ''out of bound'') \<and>
   \<not> (own_memory (objs ex_state 13) \<and> refcount (objs ex_state 13) \<noteq> None) \<and>
   chars ex_state (fresh ex_state) = None \<and>
   valid_string ex_state (view (ptr_add (data (objs ex_state 12)) (unat (2::u32))) 2) \<and>
   substr ex_state 12 2 2 False 13 =
     Inr (ex_state\<lparr>objs := (objs ex_state)(13 := view (Ptr 8 2) 2)\<rparr>) \<and>
   contents (ex_state\<lparr>objs := (objs ex_state)(13 := view (Ptr 8 2) 2)\<rparr>) (view (Ptr 8 2) 2) =
     [0x6C, 0x6C] \<and>
   substr ex_state 12 2 2 True 13 =
     Inr (ex_state\<lparr>objs := (objs ex_state)(13 :=
            \<lparr>size_m = 2, data = Ptr 20 0, own_memory = True, refcount = Some 21\<rparr>),
          chars := (chars ex_state)(20 \<mapsto> [0x6C, 0x6C]),
          cells := (cells ex_state)(21 \<mapsto> 1),
          fresh := 22\<rparr>)"
proof -
  have o: "objs ex_state 12 = view (Ptr 8 0) 5" "objs ex_state 13 = view nullptr 0"
    and f: "fresh ex_state = 20" "chars ex_state 20 = None"
    and c: "chars ex_state 8 = Some [0x68, 0x65, 0x6C, 0x6C, 0x6F]"
    by (simp_all add: ex_state_def)
  have d: "ptr_add (data (objs ex_state 12)) (unat (2::u32)) = Ptr 8 2"
    by (simp add: o view_def ptr_add_def)
  have g: "\<not> (own_memory (objs ex_state 13) \<and> refcount (objs ex_state 13) \<noteq> None)"
    by (simp add: o view_def)
  have v: "valid_string ex_state (view (Ptr 8 2) 2)"
    by (simp add: valid_string_def readable_def view_def c)
  have b: "contents ex_state (view (Ptr 8 2) 2) = [0x6C, 0x6C]"
    by (simp add: c)
  have ok: "(2::u32) < size_m (objs ex_state 12) \<and> 2 + 2 < size_m (objs ex_state 12)"
    by (simp add: o view_def)
  have r1: "substr ex_state 12 2 3 False 13 = Inl (AssertFailed ''out of bound'')"
    using substr_word_check [of ex_state 12 2 3 False 13] by (simp add: o view_def)
  have r2: "substr ex_state 12 2 2 False 13 =
     Inr (ex_state\<lparr>objs := (objs ex_state)(13 := view (Ptr 8 2) 2)\<rparr>)"
    using substr_word_check [of ex_state 12 2 2 False 13] ok g unfolding d by blast
  have r3: "substr ex_state 12 2 2 True 13 =
     Inr (ex_state\<lparr>objs := (objs ex_state)(13 :=
            \<lparr>size_m = 2, data = Ptr 20 0, own_memory = True, refcount = Some 21\<rparr>),
          chars := (chars ex_state)(20 \<mapsto> [0x6C, 0x6C]),
          cells := (cells ex_state)(21 \<mapsto> 1),
          fresh := 22\<rparr>)"
  proof -
    from f have "chars ex_state (fresh ex_state) = None" by simp
    with substr_word_check [of ex_state 12 2 2 False 13] ok g v
    have "substr ex_state 12 2 2 True 13 =
           Inr (ex_state\<lparr>objs := (objs ex_state)(13 :=
                    \<lparr>size_m = 2, data = Ptr (fresh ex_state) 0, own_memory = True,
                     refcount = Some (Suc (fresh ex_state))\<rparr>),
                  chars := (chars ex_state)(fresh ex_state \<mapsto>
                    contents ex_state (view (Ptr 8 2) 2)),
                  cells := (cells ex_state)(Suc (fresh ex_state) \<mapsto> 1),
                  fresh := Suc (Suc (fresh ex_state))\<rparr>)"
      unfolding d by blast
    then show ?thesis unfolding b f by simp
  qed
  have b': "contents (ex_state\<lparr>objs := (objs ex_state)(13 := view (Ptr 8 2) 2)\<rparr>)
      (view (Ptr 8 2) 2) = [0x6C, 0x6C]"
    by (simp add: c)
  from r1 r2 r3 g v b' f show ?thesis
    unfolding d by (simp add: o view_def)
qed

text \<open>The second way in which the call does not simply return a new string. When the
  storage of the result holds the stale members of an owning string, a substring of the
  unrelated buffer \<open>hello\<close> decrements that string's counter and frees its block; when
  it holds a pointer to no live counter, the call is a memory fault.\<close>

lemma substr_stale_storage:
  "objs ex_stale 13 = objs ex_stale 1 \<and>
   chars ex_stale 1 = Some [0x61, 0x62, 0] \<and>
   substr ex_stale 12 2 2 False 13 =
     Inr (ex_stale\<lparr>cells := (cells ex_stale)(2 \<mapsto> 0),
            chars := (chars ex_stale)(1 := None),
            objs := (objs ex_stale)(13 := view (Ptr 8 2) 2)\<rparr>) \<and>
   substr (ex_state\<lparr>objs := (objs ex_state)(13 :=
       \<lparr>size_m = 0, data = nullptr, own_memory = True, refcount = Some 99\<rparr>)\<rparr>)
     12 2 2 False 13 = Inl MemFault"
proof -
  let ?own = "\<lparr>size_m = 3, data = Ptr 1 0, own_memory = True, refcount = Some 2\<rparr>"
  have o: "objs ex_stale 12 = view (Ptr 8 0) 5" "objs ex_stale 13 = ?own"
    "objs ex_stale 1 = ?own"
    and m: "cells ex_stale 2 = Some 1" "chars ex_stale 1 = Some [0x61, 0x62, 0]"
    by (simp_all add: ex_stale_def ex_state_def)
  have ok: "(2::u32) < size_m (objs ex_stale 12) \<and> 2 + 2 < size_m (objs ex_stale 12)"
    unfolding o by (simp add: view_def)
  have d: "ptr_add (data (objs ex_stale 12)) 2 = Ptr 8 2"
    unfolding o by (simp add: view_def ptr_add_def)
  have f: "free (ex_stale\<lparr>cells := (cells ex_stale)(2 \<mapsto> 0)\<rparr>) (Ptr 1 0) =
      Inr (ex_stale\<lparr>cells := (cells ex_stale)(2 \<mapsto> 0), chars := (chars ex_stale)(1 := None)\<rparr>)"
    unfolding free_def using m(2) by (simp add: nullptr_def)
  have r: "release_data_if_needed ex_stale 13 =
      Inr (ex_stale\<lparr>cells := (cells ex_stale)(2 \<mapsto> 0), chars := (chars ex_stale)(1 := None)\<rparr>)"
    unfolding release_data_if_needed_def Let_def o using m(1) f by simp
  have 1: "substr ex_stale 12 2 2 False 13 =
     Inr (ex_stale\<lparr>cells := (cells ex_stale)(2 \<mapsto> 0),
            chars := (chars ex_stale)(1 := None),
            objs := (objs ex_stale)(13 := view (Ptr 8 2) 2)\<rparr>)"
    unfolding substr_def Let_def using ok
    by (simp add: d String_from_def assign_def r view_def)
  let ?g = "ex_state\<lparr>objs := (objs ex_state)(13 :=
       \<lparr>size_m = 0, data = nullptr, own_memory = True, refcount = Some 99\<rparr>)\<rparr>"
  have g: "objs ?g 12 = view (Ptr 8 0) 5"
    "objs ?g 13 = \<lparr>size_m = 0, data = nullptr, own_memory = True, refcount = Some 99\<rparr>"
    "cells ?g 99 = None"
    by (simp_all add: ex_state_def)
  have okg: "(2::u32) < size_m (objs ?g 12) \<and> 2 + 2 < size_m (objs ?g 12)"
    unfolding g by (simp add: view_def)
  have rg: "release_data_if_needed ?g 13 = Inl MemFault"
    unfolding release_data_if_needed_def Let_def g(2) using g(3) by simp
  have 2: "substr ?g 12 2 2 False 13 = Inl MemFault"
    unfolding substr_def Let_def using okg
    by (simp add: String_from_def assign_def rg)
  from o m 1 2 show ?thesis by simp
qed

subsection \<open>C2: the reference counting discipline\<close>

text \<open>
  Claim C2. Copy construction from another object takes over its four members and
  increments the counter when there is one; \<open>operator =\<close> from another object is the
  release of the old value followed by the same aliasing and increment (assignment of an
  object to itself changes nothing). Destroying an owning object decrements its counter;
  the data block is freed when the decremented counter is zero and is left untouched
  otherwise; destroying a non-owning object does nothing. Hence, if \<open>a\<close> owns its data
  with a counter \<open>c\<close> that is not zero, then after copy-constructing \<open>b\<close> from
  \<open>a\<close> and destroying \<open>a\<close> no block has changed, \<open>b\<close> has the bytes that
  \<open>a\<close> had, and the counter is \<open>c\<close> again (1 when it was 1).
\<close>

theorem refcount_discipline:
  "(this \<noteq> obj \<longrightarrow>
      (refcount (objs st obj) = None \<longrightarrow>
         String_copy st this obj = Inr (st\<lparr>objs := (objs st)(this := objs st obj)\<rparr>)) \<and>
      (\<forall>r c. refcount (objs st obj) = Some r \<and> cells st r = Some c \<longrightarrow>
         String_copy st this obj =
           Inr (st\<lparr>objs := (objs st)(this := objs st obj),
                  cells := (cells st)(r \<mapsto> c + 1)\<rparr>)) \<and>
      op_assign st this obj = ebind (String_dtor st this) (\<lambda>st1. String_copy st1 this obj) \<and>
      (\<forall>st'. op_assign st this obj = Inr st' \<longrightarrow>
         objs st' this = objs st obj \<and>
         (\<forall>r. refcount (objs st obj) = Some r \<longrightarrow>
            (\<exists>st1 c. String_dtor st this = Inr st1 \<and> cells st1 r = Some c \<and>
               cells st' r = Some (c + 1))))) \<and>
   op_assign st this this = Inr st \<and>
   (\<not> own_memory (objs st this) \<longrightarrow> String_dtor st this = Inr st) \<and>
   (\<forall>r c. own_memory (objs st this) \<and> refcount (objs st this) = Some r \<and>
          cells st r = Some c \<longrightarrow>
      (c - 1 \<noteq> 0 \<longrightarrow>
         String_dtor st this = Inr (st\<lparr>cells := (cells st)(r \<mapsto> c - 1)\<rparr>)) \<and>
      (\<forall>b. c - 1 = 0 \<and> data (objs st this) = Ptr b 0 \<and> Ptr b 0 \<noteq> nullptr \<and>
           chars st b \<noteq> None \<longrightarrow>
         String_dtor st this =
           Inr (st\<lparr>cells := (cells st)(r \<mapsto> 0), chars := (chars st)(b := None)\<rparr>))) \<and>
   (\<forall>r c. this \<noteq> obj \<and> own_memory (objs st obj) \<and> refcount (objs st obj) = Some r \<and>
          cells st r = Some c \<and> c \<noteq> 0 \<longrightarrow>
      (\<exists>st1 st2. String_copy st this obj = Inr st1 \<and> String_dtor st1 obj = Inr st2 \<and>
         objs st2 this = objs st obj \<and> chars st2 = chars st \<and> cells st2 r = Some c \<and>
         contents st2 (objs st2 this) = contents st (objs st obj) \<and>
         valid_string st2 (objs st2 this) = valid_string st (objs st obj)))"
proof (intro conjI impI allI)
  assume "this \<noteq> obj" and "refcount (objs st obj) = None"
  then show "String_copy st this obj = Inr (st\<lparr>objs := (objs st)(this := objs st obj)\<rparr>)"
    by (rule String_copy_no_counter)
next
  fix r c
  assume "this \<noteq> obj" and "refcount (objs st obj) = Some r \<and> cells st r = Some c"
  then show "String_copy st this obj =
      Inr (st\<lparr>objs := (objs st)(this := objs st obj), cells := (cells st)(r \<mapsto> c + 1)\<rparr>)"
    by (simp add: String_copy_counter)
next
  assume "this \<noteq> obj"
  then show "op_assign st this obj =
      ebind (String_dtor st this) (\<lambda>st1. String_copy st1 this obj)"
    by (rule op_assign_release_copy)
next
  fix st'
  assume "this \<noteq> obj" and "op_assign st this obj = Inr st'"
  then show "objs st' this = objs st obj"
    using op_assign_effect by blast
next
  fix st' r
  assume "this \<noteq> obj" and "op_assign st this obj = Inr st'"
    and "refcount (objs st obj) = Some r"
  then show "\<exists>st1 c. String_dtor st this = Inr st1 \<and> cells st1 r = Some c \<and>
      cells st' r = Some (c + 1)"
    using op_assign_effect by blast
next
  show "op_assign st this this = Inr st" by (rule op_assign_self)
next
  assume "\<not> own_memory (objs st this)"
  then show "String_dtor st this = Inr st" by (rule dtor_not_owning)
next
  fix r c
  assume "own_memory (objs st this) \<and> refcount (objs st this) = Some r \<and> cells st r = Some c"
    and "c - 1 \<noteq> 0"
  then show "String_dtor st this = Inr (st\<lparr>cells := (cells st)(r \<mapsto> c - 1)\<rparr>)"
    by (simp add: dtor_keep)
next
  fix r c b
  assume "own_memory (objs st this) \<and> refcount (objs st this) = Some r \<and> cells st r = Some c"
    and "c - 1 = 0 \<and> data (objs st this) = Ptr b 0 \<and> Ptr b 0 \<noteq> nullptr \<and> chars st b \<noteq> None"
  then show "String_dtor st this =
      Inr (st\<lparr>cells := (cells st)(r \<mapsto> 0), chars := (chars st)(b := None)\<rparr>)"
    by (intro dtor_free) simp_all
next
  fix r c
  assume "this \<noteq> obj \<and> own_memory (objs st obj) \<and> refcount (objs st obj) = Some r \<and>
          cells st r = Some c \<and> c \<noteq> 0"
  then show "\<exists>st1 st2. String_copy st this obj = Inr st1 \<and> String_dtor st1 obj = Inr st2 \<and>
         objs st2 this = objs st obj \<and> chars st2 = chars st \<and> cells st2 r = Some c \<and>
         contents st2 (objs st2 this) = contents st (objs st obj) \<and>
         valid_string st2 (objs st2 this) = valid_string st (objs st obj)"
    using copy_then_destroy [of obj this st r c] by blast
qed

theorem refcount_discipline_witness:
  "own_memory (objs ex_state 1) \<and> refcount (objs ex_state 1) = Some 2 \<and>
   cells ex_state 2 = Some 1 \<and> data (objs ex_state 1) = Ptr 1 0 \<and>
   contents ex_state (objs ex_state 1) = [0x61, 0x62, 0] \<and>
   String_copy ex_state 6 1 =
     Inr (ex_state\<lparr>objs := (objs ex_state)(6 := objs ex_state 1),
            cells := (cells ex_state)(2 \<mapsto> 2)\<rparr>) \<and>
   (\<exists>st1 st2. String_copy ex_state 6 1 = Inr st1 \<and> String_dtor st1 1 = Inr st2 \<and>
      cells st2 2 = Some 1 \<and> chars st2 = chars ex_state \<and>
      valid_string st2 (objs st2 6) \<and> contents st2 (objs st2 6) = [0x61, 0x62, 0]) \<and>
   String_dtor ex_state 1 =
     Inr (ex_state\<lparr>cells := (cells ex_state)(2 \<mapsto> 0), chars := (chars ex_state)(1 := None)\<rparr>)"
proof -
  have o: "objs ex_state 1 =
      \<lparr>size_m = 3, data = Ptr 1 0, own_memory = True, refcount = Some 2\<rparr>"
    and c: "cells ex_state 2 = Some 1" and b: "chars ex_state 1 = Some [0x61, 0x62, 0]"
    by (simp_all add: ex_state_def)
  have h: "own_memory (objs ex_state 1)" "refcount (objs ex_state 1) = Some 2"
    "data (objs ex_state 1) = Ptr 1 0"
    unfolding o by simp_all
  have k: "contents ex_state (objs ex_state 1) = [0x61, 0x62, 0]"
    "valid_string ex_state (objs ex_state 1)"
    unfolding contents_def valid_string_def readable_def o using b by simp_all
  note T = refcount_discipline [of 6 1 ex_state]
  have ne: "(6::nat) \<noteq> 1" "(1::u32) \<noteq> 0" by simp_all
  have r1: "String_copy ex_state 6 1 =
     Inr (ex_state\<lparr>objs := (objs ex_state)(6 := objs ex_state 1),
            cells := (cells ex_state)(2 \<mapsto> 1 + 1)\<rparr>)"
    using T ne h c by blast
  have "\<exists>st1 st2. String_copy ex_state 6 1 = Inr st1 \<and> String_dtor st1 1 = Inr st2 \<and>
         objs st2 6 = objs ex_state 1 \<and> chars st2 = chars ex_state \<and> cells st2 2 = Some 1 \<and>
         contents st2 (objs st2 6) = contents ex_state (objs ex_state 1) \<and>
         valid_string st2 (objs st2 6) = valid_string ex_state (objs ex_state 1)"
    using T ne h c by blast
  then have r2: "\<exists>st1 st2. String_copy ex_state 6 1 = Inr st1 \<and> String_dtor st1 1 = Inr st2 \<and>
      cells st2 2 = Some 1 \<and> chars st2 = chars ex_state \<and>
      valid_string st2 (objs st2 6) \<and> contents st2 (objs st2 6) = [0x61, 0x62, 0]"
    unfolding k(1) using k(2) by blast
  have "Ptr 1 0 \<noteq> nullptr" "chars ex_state 1 \<noteq> None" "(1::u32) - 1 = 0"
    using b by (simp_all add: nullptr_def)
  with refcount_discipline [of 1 1 ex_state] h c
  have r3: "String_dtor ex_state 1 =
     Inr (ex_state\<lparr>cells := (cells ex_state)(2 \<mapsto> 0), chars := (chars ex_state)(1 := None)\<rparr>)"
    by blast
  from h c k r1 r2 r3 show ?thesis by simp
qed

subsection \<open>C3: the bytes of a concatenation\<close>

text \<open>
  Claim C3. In a store whose next block is unused, for two strings whose bytes can be
  read: when the sizes pass the overflow check and the left operand can be released,
  \<open>operator +=\<close> and the body of \<open>operator +\<close> return, and so does an expression
  \<open>a + b\<close> in a well-formed store. Whenever \<open>operator +=\<close> returns, the bytes of the
  left operand afterwards are its former bytes, without the final byte when that byte is
  zero, followed by all bytes of the right operand; its size is \<open>size - 1 + other.size\<close>
  in that case and \<open>size + other.size\<close> otherwise, both without wrap-around. The result
  that the body of \<open>operator +\<close> constructs has the same bytes and size, and so has the
  result of an expression \<open>a + b\<close>, which leaves \<open>a\<close> as it was. The three bytes
  \<open>ab\0\<close> followed by the two bytes \<open>cd\<close> give the four bytes \<open>abcd\<close>, and
  \<open>cd\<close> followed by \<open>abc\<close> gives the five bytes \<open>cdabc\<close>.
\<close>

theorem concat_result_bytes:
  assumes "chars st (fresh st) = None"
    and "valid_string st (objs st this)" and "valid_string st (objs st str)"
  shows "(\<forall>st'. op_plus_eq st this str = Inr st' \<longrightarrow>
       contents st' (objs st' this) =
         concat_bytes (contents st (objs st this)) (contents st (objs st str)) \<and>
       valid_string st' (objs st' this) \<and>
       size_m (objs st' this) =
         (if last (contents st (objs st this)) = 0
          then size_m (objs st this) - 1 + size_m (objs st str)
          else size_m (objs st this) + size_m (objs st str)) \<and>
       unat (size_m (objs st' this)) =
         (if last (contents st (objs st this)) = 0
          then unat (size_m (objs st this)) - 1 + unat (size_m (objs st str))
          else unat (size_m (objs st this)) + unat (size_m (objs st str)))) \<and>
     (\<forall>st'. op_plus st this str ret = Inr st' \<longrightarrow>
       contents st' (objs st' ret) =
         concat_bytes (contents st (objs st this)) (contents st (objs st str)) \<and>
       valid_string st' (objs st' ret) \<and>
       size_m (objs st' ret) =
         (if last (contents st (objs st this)) = 0
          then size_m (objs st this) - 1 + size_m (objs st str)
          else size_m (objs st this) + size_m (objs st str))) \<and>
     (\<forall>st'. heap_ok st \<and> lhs \<noteq> this \<and> lhs \<noteq> str \<and> ret \<noteq> lhs \<and>
          plus_expr st this str lhs ret = Inr st' \<longrightarrow>
       contents st' (objs st' ret) =
         concat_bytes (contents st (objs st this)) (contents st (objs st str)) \<and>
       valid_string st' (objs st' ret) \<and>
       size_m (objs st' ret) =
         (if last (contents st (objs st this)) = 0
          then size_m (objs st this) - 1 + size_m (objs st str)
          else size_m (objs st this) + size_m (objs st str)) \<and>
       (ret \<noteq> this \<longrightarrow> objs st' this = objs st this) \<and>
       (\<forall>q c. own_memory (objs st this) \<and> refcount (objs st this) = Some q \<and>
              cells st q = Some c \<and> c \<noteq> 0 \<longrightarrow>
          cells st' q = Some c \<and> (\<forall>k. k \<noteq> fresh st \<longrightarrow> chars st' k = chars st k))) \<and>
     (size_m (objs st this) < size_m (objs st this) + size_m (objs st str) \<and>
        size_m (objs st str) < size_m (objs st this) + size_m (objs st str) \<and>
      can_release st (objs st this) \<longrightarrow>
        (\<exists>st'. op_plus_eq st this str = Inr st') \<and>
        (\<exists>st'. op_plus st this str ret = Inr st')) \<and>
     (size_m (objs st this) < size_m (objs st this) + size_m (objs st str) \<and>
        size_m (objs st str) < size_m (objs st this) + size_m (objs st str) \<and>
      heap_ok st \<and> lhs \<noteq> this \<and> lhs \<noteq> str \<and> ret \<noteq> lhs \<and>
      (refcount (objs st this) = None \<or>
       (\<exists>q c. refcount (objs st this) = Some q \<and> cells st q = Some c \<and> c \<noteq> 0)) \<longrightarrow>
        (\<exists>st'. plus_expr st this str lhs ret = Inr st'))"
proof -
  let ?s = "objs st this" and ?t = "objs st str"
  let ?xs = "contents st ?s" and ?ys = "contents st ?t"
  let ?a = "size_m ?s" and ?b = "size_m ?t"
  let ?z = "if last ?xs = 0 then ?a - 1 + ?b else ?a + ?b"
  have A: "contents st' (objs st' this) = concat_bytes ?xs ?ys \<and>
       valid_string st' (objs st' this) \<and> size_m (objs st' this) = ?z \<and>
       unat (size_m (objs st' this)) =
         (if last ?xs = 0 then unat ?a - 1 + unat ?b else unat ?a + unat ?b)"
    if r: "op_plus_eq st this str = Inr st'" for st'
  proof -
    note R = op_plus_eq_result [OF assms r]
    have ok: "?a < ?a + ?b" "?b < ?a + ?b"
      using r op_plus_eq_assert_fails [of st this str] by auto
    note u = u32_pred_sum [OF ok]
    from contents_whole_block [OF R(2) R(3) R(4)] R(1)
    have 1: "contents st' (objs st' this) = concat_bytes ?xs ?ys"
      "valid_string st' (objs st' this)" "size_m (objs st' this) = ?z"
      by simp_all
    have "unat ?z = (if last ?xs = 0 then unat ?a - 1 + unat ?b else unat ?a + unat ?b)"
      using u(4,5) by simp
    with 1 show ?thesis by simp
  qed
  have B: "contents st' (objs st' ret) = concat_bytes ?xs ?ys \<and>
       valid_string st' (objs st' ret) \<and> size_m (objs st' ret) = ?z"
    if r: "op_plus st this str ret = Inr st'" for st'
  proof -
    from r obtain st1 where 1: "op_plus_eq st this str = Inr st1"
      and 2: "String_copy st1 ret this = Inr st'"
      by (auto simp: op_plus_def ebind_Inr_iff)
    from 2 have o: "objs st' ret = objs st1 this" by (simp add: String_copy_objs)
    from 2 have c: "chars st' = chars st1"
      by (auto simp: String_copy_def alias_from_def Let_def split: if_splits option.splits)
    from A [OF 1] show ?thesis
      unfolding o contents_cong [OF c] by simp
  qed
  have C: "contents st' (objs st' ret) = concat_bytes ?xs ?ys \<and>
       valid_string st' (objs st' ret) \<and> size_m (objs st' ret) = ?z \<and>
       (ret \<noteq> this \<longrightarrow> objs st' this = objs st this) \<and>
       (\<forall>q c. own_memory ?s \<and> refcount ?s = Some q \<and> cells st q = Some c \<and> c \<noteq> 0 \<longrightarrow>
          cells st' q = Some c \<and> (\<forall>k. k \<noteq> fresh st \<longrightarrow> chars st' k = chars st k))"
    if r: "heap_ok st \<and> lhs \<noteq> this \<and> lhs \<noteq> str \<and> ret \<noteq> lhs \<and>
          plus_expr st this str lhs ret = Inr st'" for st'
  proof -
    from r have h: "heap_ok st" and d: "lhs \<noteq> this" "lhs \<noteq> str" "ret \<noteq> lhs"
      and p: "plus_expr st this str lhs ret = Inr st'" by simp_all
    note P = plus_expr_result [OF h assms(2,3) d p]
    from P(1,2,3,4) P(5) show ?thesis by blast
  qed
  have D: "(\<exists>st'. op_plus_eq st this str = Inr st') \<and>
        (\<exists>st'. op_plus st this str ret = Inr st')"
    if "(?a < ?a + ?b \<and> ?b < ?a + ?b) \<and> can_release st ?s"
    using op_plus_eq_total [OF _ assms(2,3,1)] op_plus_total [OF _ assms(2,3,1), of ret] that
    by blast
  have E: "\<exists>st'. plus_expr st this str lhs ret = Inr st'"
    if "(?a < ?a + ?b \<and> ?b < ?a + ?b) \<and>
      heap_ok st \<and> lhs \<noteq> this \<and> lhs \<noteq> str \<and> ret \<noteq> lhs \<and>
      (refcount ?s = None \<or>
       (\<exists>q c. refcount ?s = Some q \<and> cells st q = Some c \<and> c \<noteq> 0))"
    using plus_expr_returns [OF _ assms(2,3), of lhs ret] that by blast
  from A B C D E show ?thesis by blast
qed

theorem concat_result_bytes_witness:
  "chars ex_state (fresh ex_state) = None \<and> heap_ok ex_state \<and>
   valid_string ex_state (objs ex_state 1) \<and> valid_string ex_state (objs ex_state 2) \<and>
   valid_string ex_state (objs ex_state 8) \<and>
   can_release ex_state (objs ex_state 1) \<and> can_release ex_state (objs ex_state 2) \<and>
   contents ex_state (objs ex_state 1) = [0x61, 0x62, 0] \<and>
   contents ex_state (objs ex_state 2) = [0x63, 0x64] \<and>
   contents ex_state (objs ex_state 8) = [0x61, 0x62, 0x63] \<and>
   (\<exists>st'. op_plus_eq ex_state 1 2 = Inr st' \<and>
      contents st' (objs st' 1) = [0x61, 0x62, 0x63, 0x64] \<and>
      size_m (objs st' 1) = 4 \<and> unat (size_m (objs st' 1)) = 4) \<and>
   (\<exists>st'. op_plus_eq ex_state 2 8 = Inr st' \<and>
      contents st' (objs st' 2) = [0x63, 0x64, 0x61, 0x62, 0x63] \<and>
      size_m (objs st' 2) = 5 \<and> unat (size_m (objs st' 2)) = 5) \<and>
   (\<exists>st'. op_plus ex_state 2 8 7 = Inr st' \<and>
      contents st' (objs st' 7) = [0x63, 0x64, 0x61, 0x62, 0x63] \<and> size_m (objs st' 7) = 5) \<and>
   (\<exists>st'. plus_expr ex_state 1 2 6 7 = Inr st' \<and>
      contents st' (objs st' 7) = [0x61, 0x62, 0x63, 0x64] \<and> size_m (objs st' 7) = 4 \<and>
      objs st' 1 = objs ex_state 1 \<and> cells st' 2 = Some 1 \<and>
      chars st' 1 = Some [0x61, 0x62, 0])"
proof -
  have f: "chars ex_state (fresh ex_state) = None"
    by (simp add: ex_state_facts)
  have h: "heap_ok ex_state" by (rule ex_state_more(1))
  have cb: "concat_bytes [0x61, 0x62, 0] [0x63, 0x64] = [0x61, 0x62, 0x63, 0x64 :: u8]"
    "concat_bytes [0x63, 0x64] [0x61, 0x62, 0x63] = [0x63, 0x64, 0x61, 0x62, 0x63 :: u8]"
    by (simp_all add: concat_bytes_def)
  have s: "size_m (objs ex_state 1) = 3" "size_m (objs ex_state 2) = 2"
    "size_m (objs ex_state 8) = 3"
    unfolding ex_state_facts(1,2) ex_state_more(2) by (simp_all add: view_def)
  have l: "last [0x61, 0x62, 0 :: u8] = 0" "last [0x63, 0x64 :: u8] \<noteq> 0" by simp_all
  have ok: "(3::u32) < 3 + 2 \<and> (2::u32) < 3 + 2" "(2::u32) < 2 + 3 \<and> (3::u32) < 2 + 3"
    by simp_all
  have own: "own_memory (objs ex_state 1) \<and> refcount (objs ex_state 1) = Some 2 \<and>
      cells ex_state 2 = Some 1 \<and> (1::u32) \<noteq> 0"
    unfolding ex_state_facts(1) using ex_state_facts(5) by simp
  then have cnt: "refcount (objs ex_state 1) = None \<or>
       (\<exists>q c. refcount (objs ex_state 1) = Some q \<and> cells ex_state q = Some c \<and> c \<noteq> 0)"
    by blast
  have cr: "can_release ex_state (objs ex_state 1)" "can_release ex_state (objs ex_state 2)"
    unfolding can_release_iff ex_state_facts(1,2) using ex_state_facts(5)
    by (simp_all add: view_def)
  have d: "(6::nat) \<noteq> 1" "(6::nat) \<noteq> 2" "(7::nat) \<noteq> 6" "(7::nat) \<noteq> 1" "(1::nat) \<noteq> 20"
    by simp_all
  note T = concat_result_bytes [OF f ex_state_strings(1,2), of 7 6,
      unfolded ex_state_strings(3,4) cb s ex_state_facts(6)]
  note U = concat_result_bytes [OF f ex_state_strings(2) ex_state_more(3), of 7 6,
      unfolded ex_state_strings(4) ex_state_more(4) cb s ex_state_facts(6)]
  note T1 = T [THEN conjunct1] and T3 = T [THEN conjunct2, THEN conjunct2, THEN conjunct1]
    and T4 = T [THEN conjunct2, THEN conjunct2, THEN conjunct2, THEN conjunct1]
    and T5 = T [THEN conjunct2, THEN conjunct2, THEN conjunct2, THEN conjunct2]
  note U1 = U [THEN conjunct1] and U2 = U [THEN conjunct2, THEN conjunct1]
    and U4 = U [THEN conjunct2, THEN conjunct2, THEN conjunct2, THEN conjunct1]
  from T4 ok(1) cr(1) obtain st' where r: "op_plus_eq ex_state 1 2 = Inr st'" by blast
  from T1 r have a: "contents st' (objs st' 1) = [0x61, 0x62, 0x63, 0x64] \<and>
      size_m (objs st' 1) = 4 \<and> unat (size_m (objs st' 1)) = 4"
    by simp
  from U4 ok(2) cr(2) obtain s2 s3 where r2: "op_plus_eq ex_state 2 8 = Inr s2"
    and r3: "op_plus ex_state 2 8 7 = Inr s3" by blast
  from U1 r2 l(2) have a2: "contents s2 (objs s2 2) = [0x63, 0x64, 0x61, 0x62, 0x63] \<and>
      size_m (objs s2 2) = 5 \<and> unat (size_m (objs s2 2)) = 5"
    by simp
  from U2 r3 l(2) have a3: "contents s3 (objs s3 7) = [0x63, 0x64, 0x61, 0x62, 0x63] \<and>
      size_m (objs s3 7) = 5"
    by simp
  from T5 ok(1) h d cnt obtain st'' where p: "plus_expr ex_state 1 2 6 7 = Inr st''"
    by blast
  from T3 h d p have b: "contents st'' (objs st'' 7) = [0x61, 0x62, 0x63, 0x64] \<and>
      size_m (objs st'' 7) = 4 \<and> objs st'' 1 = objs ex_state 1"
    by simp
  from T3 h d p own have "cells st'' 2 = Some 1 \<and> (\<forall>k. k \<noteq> 20 \<longrightarrow> chars st'' k = chars ex_state k)"
    by blast
  with d(5) ex_state_facts(3) have c: "cells st'' 2 = Some 1 \<and> chars st'' 1 = Some [0x61, 0x62, 0]"
    by simp
  from r a r2 a2 r3 a3 p b c f h cr ex_state_strings ex_state_more(3,4) show ?thesis by blast
qed

subsection \<open>C4: when concatenation reports overflow\<close>

text \<open>
  Claim C4. \<open>operator +=\<close>, the body of \<open>operator +\<close> and an expression
  \<open>a + b\<close> fail with the assertion message \<open>overflow\<close> if and only if the
  \<open>uint32_t\<close> sum of the two sizes does not strictly exceed both sizes. In particular
  they fail so whenever the mathematical sum of the sizes does not fit into 32 bits. (For
  the expression \<open>a + b\<close> the parameter object is a different object from the right
  operand and the copy into it has succeeded.)
\<close>

theorem concat_overflow_iff:
  "(op_plus_eq st this str = Inl (AssertFailed ''overflow'') \<longleftrightarrow>
      \<not> (size_m (objs st this) < size_m (objs st this) + size_m (objs st str) \<and>
         size_m (objs st str) < size_m (objs st this) + size_m (objs st str))) \<and>
   (op_plus st this str ret = Inl (AssertFailed ''overflow'') \<longleftrightarrow>
      \<not> (size_m (objs st this) < size_m (objs st this) + size_m (objs st str) \<and>
         size_m (objs st str) < size_m (objs st this) + size_m (objs st str))) \<and>
   (String_copy st lhs this = Inr st1 \<and> lhs \<noteq> str \<longrightarrow>
     (plus_expr st this str lhs ret = Inl (AssertFailed ''overflow'') \<longleftrightarrow>
      \<not> (size_m (objs st this) < size_m (objs st this) + size_m (objs st str) \<and>
         size_m (objs st str) < size_m (objs st this) + size_m (objs st str)))) \<and>
   (2 ^ 32 \<le> unat (size_m (objs st this)) + unat (size_m (objs st str)) \<longrightarrow>
      op_plus_eq st this str = Inl (AssertFailed ''overflow'') \<and>
      op_plus st this str ret = Inl (AssertFailed ''overflow''))"
proof -
  let ?ok = "size_m (objs st this) < size_m (objs st this) + size_m (objs st str) \<and>
             size_m (objs st str) < size_m (objs st this) + size_m (objs st str)"
  have a: "op_plus_eq st this str = Inl (AssertFailed ''overflow'') \<longleftrightarrow> \<not> ?ok"
  proof
    assume "op_plus_eq st this str = Inl (AssertFailed ''overflow'')"
    from op_plus_eq_err [OF this] show "\<not> ?ok" by simp
  next
    assume "\<not> ?ok"
    then show "op_plus_eq st this str = Inl (AssertFailed ''overflow'')"
      by (rule op_plus_eq_assert_fails)
  qed
  have b: "op_plus st this str ret = Inl (AssertFailed ''overflow'') \<longleftrightarrow> \<not> ?ok"
  proof
    assume "op_plus st this str ret = Inl (AssertFailed ''overflow'')"
    from op_plus_err [OF this] a show "\<not> ?ok" by simp
  next
    assume "\<not> ?ok"
    with a show "op_plus st this str ret = Inl (AssertFailed ''overflow'')"
      by (simp add: op_plus_def)
  qed
  have c: "String_copy st lhs this = Inr st1 \<and> lhs \<noteq> str \<longrightarrow>
     (plus_expr st this str lhs ret = Inl (AssertFailed ''overflow'') \<longleftrightarrow> \<not> ?ok)"
    using plus_expr_overflow_iff [of st lhs this st1 str ret] by blast
  have d: "2 ^ 32 \<le> unat (size_m (objs st this)) + unat (size_m (objs st str)) \<Longrightarrow> \<not> ?ok"
    by (rule u32_sum_wraps)
  from a b c d show ?thesis by blast
qed

theorem concat_overflow_iff_witness:
  "2 ^ 32 \<le> unat (size_m (objs ex_state 3)) + unat (size_m (objs ex_state 2)) \<and>
   String_copy ex_state 6 3 = Inr (ex_state\<lparr>objs := (objs ex_state)(6 := objs ex_state 3)\<rparr>) \<and>
   op_plus_eq ex_state 3 2 = Inl (AssertFailed ''overflow'') \<and>
   op_plus ex_state 3 2 7 = Inl (AssertFailed ''overflow'') \<and>
   plus_expr ex_state 3 2 6 7 = Inl (AssertFailed ''overflow'')"
  using concat_overflow_iff [of ex_state 3 2 7 6 "ex_state\<lparr>objs := (objs ex_state)(6 := objs ex_state 3)\<rparr>"]
  by (simp add: ex_state_def view_def String_copy_def alias_from_def)

subsection \<open>C5: compare and the relational operators\<close>

text \<open>
  Claim C5, with the order of two bytes as the code has it. For two strings whose bytes
  can be read, \<open>a.compare(b)\<close> returns
  one of 1, 0 and -1: it returns 0 exactly when the byte contents are equal; -1 exactly
  when \<open>a\<close> is a strict prefix of \<open>b\<close> or, after a common prefix, the next byte of
  \<open>a\<close> is less than that of \<open>b\<close> as a value of plain \<open>char\<close>; 1 exactly in
  the symmetric cases. Where plain \<open>char\<close> is signed, as in the default build, two bytes
  are compared as signed 8-bit values, so that the bytes \<open>0x80\<close> to \<open>0xFF\<close> are
  below the bytes \<open>0x00\<close> to \<open>0x7F\<close>; where it is unsigned they are compared as
  numbers. The operators \<open><\<close>, \<open>>\<close>, \<open>==\<close>, \<open>!=\<close> are the tests \<open>< 0\<close>,
  \<open>> 0\<close>, \<open>== 0\<close>, \<open>!= 0\<close> of that result. So \<open>abc < abd\<close>,
  \<open>abc < abcd\<close> and \<open>abc == abc\<close>.
\<close>

theorem compare_spec:
  assumes "valid_string st (objs st a)" and "valid_string st (objs st b)"
  shows "\<exists>r. compare sg st a b = Inr r \<and> r \<in> {1, 0, - 1} \<and>
     (r = 0 \<longleftrightarrow> contents st (objs st a) = contents st (objs st b)) \<and>
     (r = - 1 \<longleftrightarrow>
        strict_prefix (contents st (objs st a)) (contents st (objs st b)) \<or>
        (\<exists>p x y u v. contents st (objs st a) = p @ x # u \<and>
           contents st (objs st b) = p @ y # v \<and> char_less sg x y)) \<and>
     (r = 1 \<longleftrightarrow>
        strict_prefix (contents st (objs st b)) (contents st (objs st a)) \<or>
        (\<exists>p x y u v. contents st (objs st a) = p @ x # u \<and>
           contents st (objs st b) = p @ y # v \<and> char_less sg y x)) \<and>
     op_lt sg st a b = Inr (r < 0) \<and> op_gt sg st a b = Inr (r > 0) \<and>
     op_eq sg st a b = Inr (r = 0) \<and> op_ne sg st a b = Inr (r \<noteq> 0)"
proof -
  let ?xs = "contents st (objs st a)" and ?ys = "contents st (objs st b)"
  have c: "compare sg st a b = Inr (lex_compare sg ?xs ?ys)"
    using assms by (rule compare_lex)
  show ?thesis
    using c lex_compare_range [of sg ?xs ?ys] lex_compare_eq_0 [of sg ?xs ?ys]
      lex_compare_less [of sg ?xs ?ys] lex_compare_greater [of sg ?xs ?ys]
      relational_ops [OF c]
    by blast
qed

theorem compare_spec_witness:
  "valid_string ex_state (objs ex_state 8) \<and> valid_string ex_state (objs ex_state 10) \<and>
   valid_string ex_state (objs ex_state 11) \<and>
   contents ex_state (objs ex_state 8) = [0x61, 0x62, 0x63] \<and>
   contents ex_state (objs ex_state 10) = [0x61, 0x62, 0x64] \<and>
   contents ex_state (objs ex_state 11) = [0x61, 0x62, 0x63, 0x64] \<and>
   compare True ex_state 8 10 = Inr (- 1) \<and> op_lt True ex_state 8 10 = Inr True \<and>
   compare True ex_state 8 11 = Inr (- 1) \<and> op_lt True ex_state 8 11 = Inr True \<and>
   compare True ex_state 8 8 = Inr 0 \<and> op_eq True ex_state 8 8 = Inr True \<and>
   compare False ex_state 8 10 = Inr (- 1) \<and> op_lt False ex_state 8 10 = Inr True \<and>
   compare False ex_state 8 11 = Inr (- 1) \<and> op_lt False ex_state 8 11 = Inr True \<and>
   compare False ex_state 8 8 = Inr 0 \<and> op_eq False ex_state 8 8 = Inr True \<and>
   valid_string ex_state (objs ex_state 14) \<and> valid_string ex_state (objs ex_state 15) \<and>
   contents ex_state (objs ex_state 14) = [0xC3] \<and>
   contents ex_state (objs ex_state 15) = [0x6C] \<and>
   compare True ex_state 14 15 = Inr (- 1) \<and> compare False ex_state 14 15 = Inr 1"
proof -
  have v: "valid_string ex_state (objs ex_state 8)" "valid_string ex_state (objs ex_state 10)"
    "valid_string ex_state (objs ex_state 11)"
    by (simp_all add: ex_state_def view_def valid_string_def readable_def)
  have c: "contents ex_state (objs ex_state 8) = [0x61, 0x62, 0x63]"
    "contents ex_state (objs ex_state 10) = [0x61, 0x62, 0x64]"
    "contents ex_state (objs ex_state 11) = [0x61, 0x62, 0x63, 0x64]"
    by (simp_all add: ex_state_def view_def contents_def)
  have l: "char_less sg (0x63 :: u8) 0x64" for sg by (simp add: char_less_def)
  have d: "\<exists>p x y u v. [0x61, 0x62, 0x63 :: u8] = p @ x # u \<and> [0x61, 0x62, 0x64] = p @ y # v \<and>
      char_less sg x y" for sg
  proof -
    have "[0x61, 0x62, 0x63 :: u8] = [0x61, 0x62] @ 0x63 # [] \<and>
          [0x61, 0x62, 0x64 :: u8] = [0x61, 0x62] @ 0x64 # [] \<and> char_less sg (0x63 :: u8) 0x64"
      using l [of sg] by simp
    then show ?thesis by blast
  qed
  have p: "strict_prefix [0x61, 0x62, 0x63 :: u8] [0x61, 0x62, 0x63, 0x64]"
    by simp
  have r1: "compare sg ex_state 8 10 = Inr (- 1) \<and> op_lt sg ex_state 8 10 = Inr True" for sg
    using compare_spec [OF v(1) v(2), of sg] d [of sg] unfolding c by auto
  have r2: "compare sg ex_state 8 11 = Inr (- 1) \<and> op_lt sg ex_state 8 11 = Inr True" for sg
    using compare_spec [OF v(1) v(3), of sg] p unfolding c by auto
  have r3: "compare sg ex_state 8 8 = Inr 0 \<and> op_eq sg ex_state 8 8 = Inr True" for sg
    using compare_spec [OF v(1) v(1), of sg] by auto
  have o: "objs ex_state 14 = view (Ptr 4 1) 1" "objs ex_state 15 = view (Ptr 4 3) 1"
    and b: "chars ex_state 4 = Some [0x68, 0xC3, 0xA9, 0x6C, 0x6C, 0x6F, 0]"
    by (simp_all add: ex_state_def)
  have v': "valid_string ex_state (objs ex_state 14)" "valid_string ex_state (objs ex_state 15)"
    unfolding o by (simp_all add: valid_string_def readable_def view_def b)
  have c': "contents ex_state (objs ex_state 14) = [0xC3]"
    "contents ex_state (objs ex_state 15) = [0x6C]"
    unfolding o by (simp_all add: b)
  have "[0xC3 :: u8] = [] @ 0xC3 # [] \<and> [0x6C :: u8] = [] @ 0x6C # [] \<and>
      char_less True (0xC3 :: u8) 0x6C"
    by (simp add: char_less_def)
  then have d4: "\<exists>p x y u v. [0xC3 :: u8] = p @ x # u \<and> [0x6C] = p @ y # v \<and>
      char_less True x y" by blast
  have "[0xC3 :: u8] = [] @ 0xC3 # [] \<and> [0x6C :: u8] = [] @ 0x6C # [] \<and>
      char_less False (0x6C :: u8) 0xC3"
    by (simp add: char_less_def)
  then have d5: "\<exists>p x y u v. [0xC3 :: u8] = p @ x # u \<and> [0x6C] = p @ y # v \<and>
      char_less False y x" by blast
  have r4: "compare True ex_state 14 15 = Inr (- 1)"
    using compare_spec [OF v', of True] d4 unfolding c' by auto
  have r5: "compare False ex_state 14 15 = Inr 1"
    using compare_spec [OF v', of False] d5 unfolding c' by auto
  from v c r1 [of True] r2 [of True] r3 [of True] r1 [of False] r2 [of False] r3 [of False]
    v' c' r4 r5
  show ?thesis by simp
qed

text \<open>The claim as it was stated, with the first differing bytes compared as byte values,
  fails where \<open>char\<close> is signed: the byte \<open>6C\<close> is smaller than the byte
  \<open>C3\<close>, but the string \<open>6C\<close> compares as greater than the string \<open>C3\<close>.\<close>

theorem compare_bytewise_counterexample:
  "contents ex_state (objs ex_state 15) = [0x6C] \<and>
   contents ex_state (objs ex_state 14) = [0xC3] \<and>
   (0x6C :: u8) < 0xC3 \<and>
   compare True ex_state 15 14 = Inr 1 \<and>
   compare True ex_state 15 14 \<noteq> Inr (- 1) \<and>
   op_lt True ex_state 15 14 = Inr False"
proof -
  have o: "objs ex_state 15 = view (Ptr 4 3) 1" "objs ex_state 14 = view (Ptr 4 1) 1"
    and b: "chars ex_state 4 = Some [0x68, 0xC3, 0xA9, 0x6C, 0x6C, 0x6F, 0]"
    by (simp_all add: ex_state_def)
  have v: "valid_string ex_state (objs ex_state 15)" "valid_string ex_state (objs ex_state 14)"
    unfolding o by (simp_all add: valid_string_def readable_def view_def b)
  have c: "contents ex_state (objs ex_state 15) = [0x6C]"
    "contents ex_state (objs ex_state 14) = [0xC3]"
    unfolding o by (simp_all add: b)
  have l: "lex_compare True [0x6C] [0xC3] = 1"
    by (simp add: char_less_def)
  have r: "compare True ex_state 15 14 = Inr 1"
    unfolding compare_lex [OF v] c l ..
  then have "op_lt True ex_state 15 14 = Inr False"
    by (simp add: op_lt_def)
  with r c show ?thesis by simp
qed

subsection \<open>C6: strlen\<close>

text \<open>
  Claim C6. For every string whose bytes can be read, \<open>strlen()\<close> returns
  \<open>size - 1\<close> when \<open>size > 0\<close> and the last byte is zero, and \<open>size\<close>
  otherwise. The four bytes \<open>abc\0\<close> and the three bytes \<open>abc\<close> both give 3.
\<close>

theorem strlen_spec:
  "valid_string st (objs st this) \<Longrightarrow>
     strlen st this =
       Inr (if size_m (objs st this) > 0 \<and> last (contents st (objs st this)) = 0
            then size_m (objs st this) - 1 else size_m (objs st this))"
  by (simp add: strlen_def Let_def null_terminated_valid)

theorem strlen_spec_witness:
  "valid_string ex_state (objs ex_state 9) \<and> valid_string ex_state (objs ex_state 8) \<and>
   contents ex_state (objs ex_state 9) = [0x61, 0x62, 0x63, 0] \<and>
   contents ex_state (objs ex_state 8) = [0x61, 0x62, 0x63] \<and>
   strlen ex_state 9 = Inr 3 \<and> strlen ex_state 8 = Inr 3"
  using strlen_spec [of ex_state 9] strlen_spec [of ex_state 8]
  by (simp add: ex_state_def view_def valid_string_def readable_def contents_def)

subsection \<open>C7: strlenUTF8\<close>

text \<open>
  Claim C7. For every string whose bytes can be read, \<open>strlenUTF8()\<close> returns the
  number of bytes outside \<open>[0x80, 0xBF]\<close> among the scanned bytes, which are all
  \<open>size\<close> bytes except that a final zero byte is left out. The UTF-8 bytes
  \<open>68 C3 A9 6C 6C 6F\<close> give 5 with and without a final zero byte.
\<close>

theorem strlenUTF8_spec:
  assumes "valid_string st (objs st this)"
  shows "\<exists>n. strlenUTF8 st this = Inr n \<and>
     unat n = length (filter utf8_lead
       (if size_m (objs st this) > 0 \<and> last (contents st (objs st this)) = 0
        then butlast (contents st (objs st this)) else contents st (objs st this)))"
proof -
  let ?s = "objs st this"
  let ?cs = "contents st ?s"
  let ?n = "unat (size_m ?s)"
  let ?scan = "if size_m ?s > 0 \<and> last ?cs = 0 then butlast ?cs else ?cs"
  have len: "length ?cs = ?n" using assms by (rule length_contents)
  have b: "length (filter utf8_lead ?scan) < 2 ^ 32"
  proof -
    have "length (filter utf8_lead ?scan) \<le> length ?scan" by (rule length_filter_le)
    also have "\<dots> \<le> ?n" using len by simp
    also have "\<dots> < 2 ^ 32" using unsigned_less [of "size_m ?s"] by simp
    finally show ?thesis .
  qed
  have r: "strlenUTF8 st this = Inr (of_nat (length (filter utf8_lead ?scan)))"
  proof (cases "size_m ?s > 0 \<and> last ?cs = 0")
    case True
    then have pos: "0 < ?n" by (simp add: unat_gt_0 word_greater_zero_iff)
    have sc: "?scan = butlast ?cs" by (rule if_P [OF True])
    have nt: "null_terminated st ?s = Inr True"
      using True by (simp add: null_terminated_valid [OF assms])
    have e: "ptr_sub (ptr_add (data ?s) ?n) 1 = Ptr (blk (data ?s)) (off (data ?s) + (?n - 1))"
      using pos by (simp add: ptr_sub_def ptr_add_def)
    have "take (?n - 1) ?cs = butlast ?cs" using len by (simp add: butlast_conv_take)
    with strlenUTF8_scan [OF assms, of "?n - 1"]
    have "strlenUTF8_loop st (data ?s) (Ptr (blk (data ?s)) (off (data ?s) + (?n - 1))) 0 =
        Inr (of_nat (length (filter utf8_lead (butlast ?cs))))" by simp
    moreover have "strlenUTF8 st this =
        strlenUTF8_loop st (data ?s) (ptr_sub (ptr_add (data ?s) ?n) 1) 0"
      by (simp add: strlenUTF8_def Let_def nt)
    ultimately show ?thesis
      unfolding sc e by simp
  next
    case False
    have sc: "?scan = ?cs" by (rule if_not_P [OF False])
    have nt: "null_terminated st ?s = Inr False"
      using False by (simp add: null_terminated_valid [OF assms])
    have "take ?n ?cs = ?cs" using len by simp
    with strlenUTF8_scan [OF assms, of ?n]
    have "strlenUTF8_loop st (data ?s) (Ptr (blk (data ?s)) (off (data ?s) + ?n)) 0 =
        Inr (of_nat (length (filter utf8_lead ?cs)))" by simp
    then show ?thesis
      unfolding sc by (simp add: strlenUTF8_def Let_def nt ptr_add_def)
  qed
  have "unat (of_nat (length (filter utf8_lead ?scan)) :: u32) = length (filter utf8_lead ?scan)"
    using b by (simp add: unat_of_nat)
  with r show ?thesis by simp
qed


theorem strlenUTF8_spec_witness:
  "valid_string ex_state (objs ex_state 4) \<and> valid_string ex_state (objs ex_state 5) \<and>
   contents ex_state (objs ex_state 4) = [0x68, 0xC3, 0xA9, 0x6C, 0x6C, 0x6F] \<and>
   contents ex_state (objs ex_state 5) = [0x68, 0xC3, 0xA9, 0x6C, 0x6C, 0x6F, 0] \<and>
   (\<exists>n. strlenUTF8 ex_state 4 = Inr n \<and> unat n = 5) \<and>
   (\<exists>n. strlenUTF8 ex_state 5 = Inr n \<and> unat n = 5)"
proof -
  have v: "valid_string ex_state (objs ex_state 4)" "valid_string ex_state (objs ex_state 5)"
    by (simp_all add: ex_state_def view_def valid_string_def readable_def)
  have c: "contents ex_state (objs ex_state 4) = [0x68, 0xC3, 0xA9, 0x6C, 0x6C, 0x6F]"
    "contents ex_state (objs ex_state 5) = [0x68, 0xC3, 0xA9, 0x6C, 0x6C, 0x6F, 0]"
    by (simp_all add: ex_state_def view_def contents_def)
  have s: "size_m (objs ex_state 4) = 6" "size_m (objs ex_state 5) = 7"
    by (simp_all add: ex_state_def view_def)
  have f: "length (filter utf8_lead [0x68, 0xC3, 0xA9, 0x6C, 0x6C, 0x6F]) = 5"
    by (simp add: utf8_lead_def)
  have "\<exists>n. strlenUTF8 ex_state 4 = Inr n \<and>
          unat n = length (filter utf8_lead [0x68, 0xC3, 0xA9, 0x6C, 0x6C, 0x6F])"
    using strlenUTF8_spec [OF v(1)] by (simp add: c s)
  then have r4: "\<exists>n. strlenUTF8 ex_state 4 = Inr n \<and> unat n = 5"
    unfolding f .
  have "\<exists>n. strlenUTF8 ex_state 5 = Inr n \<and>
          unat n = length (filter utf8_lead [0x68, 0xC3, 0xA9, 0x6C, 0x6C, 0x6F])"
    using strlenUTF8_spec [OF v(2)] by (simp add: c s)
  then have r5: "\<exists>n. strlenUTF8 ex_state 5 = Inr n \<and> unat n = 5"
    unfolding f .
  from v c r4 r5 show ?thesis by simp
qed

subsection \<open>C8: concatenation builds a new buffer and leaves the old one alone\<close>

text \<open>
  Claim C8. In a well-formed store, for two strings whose bytes can be read, whose sizes
  pass the overflow check and whose left operand can be released, \<open>operator +=\<close> returns,
  and it leaves the left operand owning a block that did not exist before, holding the
  concatenated bytes, with a counter cell that did not exist before and holds 1. The old
  reference is released in the store in which the new block is already complete. No block
  other than the new one has different bytes afterwards: a block either is what it was, or
  it is the old data block of the left operand and has been freed because its decremented
  counter was zero. The old counter has been decremented; when it is still positive, every
  old block is unchanged, and when it is zero the old data block is gone. No other object
  has changed, and every other object whose block is still live reads the bytes it read
  before.
\<close>

theorem concat_fresh_buffer:
  assumes h: "heap_ok st"
    and vs: "valid_string st (objs st this)" and vt: "valid_string st (objs st str)"
    and ok: "size_m (objs st this) < size_m (objs st this) + size_m (objs st str) \<and>
             size_m (objs st str) < size_m (objs st this) + size_m (objs st str)"
    and cr: "can_release st (objs st this)"
  shows "\<exists>st'. op_plus_eq st this str = Inr st' \<and>
     own_memory (objs st' this) \<and> data (objs st' this) = Ptr (fresh st) 0 \<and>
     chars st (fresh st) = None \<and>
     chars st' (fresh st) =
       Some (concat_bytes (contents st (objs st this)) (contents st (objs st str))) \<and>
     refcount (objs st' this) = Some (Suc (fresh st)) \<and>
     cells st (Suc (fresh st)) = None \<and> cells st' (Suc (fresh st)) = Some 1 \<and>
     (\<exists>st4. release_data_if_needed
              (st\<lparr>chars := (chars st)(fresh st \<mapsto>
                     concat_bytes (contents st (objs st this)) (contents st (objs st str))),
                   fresh := Suc (fresh st)\<rparr>) this = Inr st4 \<and>
        chars st' = chars st4 \<and> (\<forall>q. q \<noteq> Suc (fresh st) \<longrightarrow> cells st' q = cells st4 q)) \<and>
     (\<forall>b. b \<noteq> fresh st \<longrightarrow>
        chars st' b = chars st b \<or>
        chars st' b = None \<and> b = blk (data (objs st this)) \<and> own_memory (objs st this) \<and>
        (\<exists>q c. refcount (objs st this) = Some q \<and> cells st q = Some c \<and> c - 1 = 0)) \<and>
     (\<forall>q c. own_memory (objs st this) \<and> refcount (objs st this) = Some q \<and>
            cells st q = Some c \<longrightarrow>
        cells st' q = Some (c - 1) \<and>
        (c - 1 \<noteq> 0 \<longrightarrow> (\<forall>b. b \<noteq> fresh st \<longrightarrow> chars st' b = chars st b)) \<and>
        (c - 1 = 0 \<and> data (objs st this) \<noteq> nullptr \<longrightarrow>
           chars st' (blk (data (objs st this))) = None)) \<and>
     (\<forall>x. x \<noteq> this \<longrightarrow> objs st' x = objs st x) \<and>
     (\<forall>x. x \<noteq> this \<and> chars st (blk (data (objs st x))) \<noteq> None \<and>
          chars st' (blk (data (objs st x))) \<noteq> None \<longrightarrow>
        contents st' (objs st' x) = contents st (objs st x))"
proof -
  from h have f: "chars st (fresh st) = None" by (auto simp: heap_ok_def)
  from op_plus_eq_total [OF ok vs vt f cr]
  obtain st' where r: "op_plus_eq st this str = Inr st'" by blast
  from r op_plus_eq_effect [OF h vs vt r] show ?thesis by blast
qed

theorem concat_fresh_buffer_witness:
  "heap_ok ex_state \<and> heap_ok ex_shared \<and>
   valid_string ex_state (objs ex_state 1) \<and> valid_string ex_state (objs ex_state 2) \<and>
   valid_string ex_state (objs ex_state 8) \<and>
   can_release ex_state (objs ex_state 1) \<and> can_release ex_shared (objs ex_shared 1) \<and>
   can_release ex_state (objs ex_state 2) \<and>
   (\<exists>st'. op_plus_eq ex_state 1 2 = Inr st' \<and>
      own_memory (objs st' 1) \<and> data (objs st' 1) = Ptr 20 0 \<and>
      chars ex_state 20 = None \<and> chars st' 20 = Some [0x61, 0x62, 0x63, 0x64] \<and>
      refcount (objs st' 1) = Some 21 \<and> cells st' 21 = Some 1 \<and>
      cells st' 2 = Some 0 \<and> chars st' 1 = None \<and> chars st' 3 = Some [0x63, 0x64]) \<and>
   (\<exists>st'. op_plus_eq ex_shared 1 2 = Inr st' \<and>
      own_memory (objs st' 1) \<and> data (objs st' 1) = Ptr 20 0 \<and>
      chars ex_shared 20 = None \<and> chars st' 20 = Some [0x61, 0x62, 0x63, 0x64] \<and>
      refcount (objs st' 1) = Some 21 \<and> cells st' 21 = Some 1 \<and>
      cells st' 2 = Some 1 \<and> chars st' 1 = Some [0x61, 0x62, 0] \<and>
      objs st' 6 = objs ex_shared 6 \<and> contents st' (objs st' 6) = [0x61, 0x62, 0]) \<and>
   (\<exists>st'. op_plus_eq ex_state 2 8 = Inr st' \<and>
      own_memory (objs st' 2) \<and> data (objs st' 2) = Ptr 20 0 \<and>
      chars st' 20 = Some [0x63, 0x64, 0x61, 0x62, 0x63] \<and>
      refcount (objs st' 2) = Some 21 \<and> cells st' 21 = Some 1 \<and>
      chars st' 3 = Some [0x63, 0x64] \<and> chars st' 5 = Some [0x61, 0x62, 0x63, 0])"
proof -
  have cb: "concat_bytes [0x61, 0x62, 0] [0x63, 0x64] = [0x61, 0x62, 0x63, 0x64 :: u8]"
    "concat_bytes [0x63, 0x64] [0x61, 0x62, 0x63] = [0x63, 0x64, 0x61, 0x62, 0x63 :: u8]"
    by (simp_all add: concat_bytes_def)
  have h: "heap_ok ex_state" by (rule ex_state_more(1))
  have ne: "(3::nat) \<noteq> 20" "(5::nat) \<noteq> 20" "(1::nat) \<noteq> 20" "Ptr 1 0 \<noteq> nullptr"
    "(1::u32) - 1 = 0" "(2::u32) - 1 \<noteq> 0"
    by (simp_all add: nullptr_def)
  have ok1: "size_m (objs ex_state 1) < size_m (objs ex_state 1) + size_m (objs ex_state 2) \<and>
             size_m (objs ex_state 2) < size_m (objs ex_state 1) + size_m (objs ex_state 2)"
    unfolding ex_state_facts(1,2) by (simp add: view_def)
  have own1: "own_memory (objs ex_state 1) \<and> refcount (objs ex_state 1) = Some 2 \<and>
      cells ex_state 2 = Some 1" "data (objs ex_state 1) = Ptr 1 0" "blk (data (objs ex_state 1)) = 1"
    unfolding ex_state_facts(1) using ex_state_facts(5) by simp_all
  have cr1: "can_release ex_state (objs ex_state 1)"
    unfolding can_release_iff ex_state_facts(1) using ex_state_facts(5) by simp
  from concat_fresh_buffer [OF h ex_state_strings(1,2) ok1 cr1,
      unfolded ex_state_strings(3,4) ex_state_facts(6) cb]
  obtain s1 where r1: "op_plus_eq ex_state 1 2 = Inr s1"
    and a1: "own_memory (objs s1 1) \<and> data (objs s1 1) = Ptr 20 0 \<and>
      chars ex_state 20 = None \<and> chars s1 20 = Some [0x61, 0x62, 0x63, 0x64] \<and>
      refcount (objs s1 1) = Some 21 \<and> cells s1 21 = Some 1"
    and b1: "\<forall>b. b \<noteq> 20 \<longrightarrow>
        chars s1 b = chars ex_state b \<or>
        chars s1 b = None \<and> b = blk (data (objs ex_state 1)) \<and> own_memory (objs ex_state 1) \<and>
        (\<exists>q c. refcount (objs ex_state 1) = Some q \<and> cells ex_state q = Some c \<and> c - 1 = 0)"
    and c1: "\<forall>q c. own_memory (objs ex_state 1) \<and> refcount (objs ex_state 1) = Some q \<and>
            cells ex_state q = Some c \<longrightarrow>
        cells s1 q = Some (c - 1) \<and>
        (c - 1 \<noteq> 0 \<longrightarrow> (\<forall>b. b \<noteq> 20 \<longrightarrow> chars s1 b = chars ex_state b)) \<and>
        (c - 1 = 0 \<and> data (objs ex_state 1) \<noteq> nullptr \<longrightarrow>
           chars s1 (blk (data (objs ex_state 1))) = None)"
    by auto
  from c1 own1(1) have "cells s1 2 = Some (1 - 1) \<and>
      ((1::u32) - 1 = 0 \<and> data (objs ex_state 1) \<noteq> nullptr \<longrightarrow>
           chars s1 (blk (data (objs ex_state 1))) = None)" by blast
  then have d1: "cells s1 2 = Some 0" "chars s1 1 = None"
    unfolding own1(2,3) using ne by simp_all
  from b1 ne(1) have "chars s1 3 = chars ex_state 3 \<or> chars s1 3 = None \<and> 3 = blk (data (objs ex_state 1))"
    by blast
  then have e1: "chars s1 3 = Some [0x63, 0x64]"
    unfolding own1(3) using ex_state_facts(4) by simp
  have ok2: "size_m (objs ex_shared 1) < size_m (objs ex_shared 1) + size_m (objs ex_shared 2) \<and>
            size_m (objs ex_shared 2) < size_m (objs ex_shared 1) + size_m (objs ex_shared 2)"
    unfolding ex_shared_facts(1,2) by (simp add: view_def)
  have cr2: "can_release ex_shared (objs ex_shared 1)"
    unfolding can_release_iff ex_shared_facts(1) using ex_shared_facts(5) by simp
  have own2: "own_memory (objs ex_shared 1) \<and> refcount (objs ex_shared 1) = Some 2 \<and>
      cells ex_shared 2 = Some 2"
    unfolding ex_shared_facts(1) using ex_shared_facts(5) by simp
  have b2: "chars ex_shared 1 = Some [0x61, 0x62, 0]"
    unfolding ex_shared_facts(4) by (rule ex_state_facts)
  from concat_fresh_buffer [OF ex_shared_facts(7) ex_shared_strings(1,2) ok2 cr2,
      unfolded ex_shared_strings(3,4) ex_shared_facts(6) cb]
  obtain s2 where r2: "op_plus_eq ex_shared 1 2 = Inr s2"
    and a2: "own_memory (objs s2 1) \<and> data (objs s2 1) = Ptr 20 0 \<and>
      chars ex_shared 20 = None \<and> chars s2 20 = Some [0x61, 0x62, 0x63, 0x64] \<and>
      refcount (objs s2 1) = Some 21 \<and> cells s2 21 = Some 1"
    and c2: "\<forall>q c. own_memory (objs ex_shared 1) \<and> refcount (objs ex_shared 1) = Some q \<and>
            cells ex_shared q = Some c \<longrightarrow>
        cells s2 q = Some (c - 1) \<and>
        (c - 1 \<noteq> 0 \<longrightarrow> (\<forall>b. b \<noteq> 20 \<longrightarrow> chars s2 b = chars ex_shared b)) \<and>
        (c - 1 = 0 \<and> data (objs ex_shared 1) \<noteq> nullptr \<longrightarrow>
           chars s2 (blk (data (objs ex_shared 1))) = None)"
    and o2: "\<forall>x. x \<noteq> 1 \<longrightarrow> objs s2 x = objs ex_shared x"
    by auto
  from c2 own2 have "cells s2 2 = Some (2 - 1) \<and>
      ((2::u32) - 1 \<noteq> 0 \<longrightarrow> (\<forall>b. b \<noteq> 20 \<longrightarrow> chars s2 b = chars ex_shared b))"
    by blast
  then have d2: "cells s2 2 = Some 1" "chars s2 1 = Some [0x61, 0x62, 0]"
    using b2 ne by simp_all
  from o2 have o6: "objs s2 6 = objs ex_shared 6" by simp
  have k2: "contents s2 (objs s2 6) = [0x61, 0x62, 0]"
    unfolding o6 ex_shared_facts(3) contents_def using d2(2) by simp
  have ok3: "size_m (objs ex_state 2) < size_m (objs ex_state 2) + size_m (objs ex_state 8) \<and>
             size_m (objs ex_state 8) < size_m (objs ex_state 2) + size_m (objs ex_state 8)"
    unfolding ex_state_facts(2) ex_state_more(2) by (simp add: view_def)
  have cr3: "can_release ex_state (objs ex_state 2)"
    unfolding can_release_def ex_state_facts(2) by (simp add: view_def)
  have n3: "\<not> own_memory (objs ex_state 2)"
    unfolding ex_state_facts(2) by (simp add: view_def)
  from concat_fresh_buffer [OF h ex_state_strings(2) ex_state_more(3) ok3 cr3,
      unfolded ex_state_strings(4) ex_state_more(4) ex_state_facts(6) cb]
  obtain s3 where r3: "op_plus_eq ex_state 2 8 = Inr s3"
    and a3: "own_memory (objs s3 2) \<and> data (objs s3 2) = Ptr 20 0 \<and>
      chars s3 20 = Some [0x63, 0x64, 0x61, 0x62, 0x63] \<and>
      refcount (objs s3 2) = Some 21 \<and> cells s3 21 = Some 1"
    and b3: "\<forall>b. b \<noteq> 20 \<longrightarrow>
        chars s3 b = chars ex_state b \<or>
        chars s3 b = None \<and> b = blk (data (objs ex_state 2)) \<and> own_memory (objs ex_state 2) \<and>
        (\<exists>q c. refcount (objs ex_state 2) = Some q \<and> cells ex_state q = Some c \<and> c - 1 = 0)"
    by auto
  from b3 n3 ne have "chars s3 3 = chars ex_state 3" "chars s3 5 = chars ex_state 5"
    by blast+
  then have e3: "chars s3 3 = Some [0x63, 0x64]" "chars s3 5 = Some [0x61, 0x62, 0x63, 0]"
    using ex_state_facts(4) ex_state_more(5) by simp_all
  from h ex_shared_facts(7) ex_state_strings(1,2) ex_state_more(3) cr1 cr2 cr3
    r1 a1 d1 e1 r2 a2 d2 o6 k2 r3 a3 e3
  show ?thesis by blast
qed

subsection \<open>C9: an empty operand makes concatenation fail\<close>

text \<open>
  Claim C9. When either operand has size 0, \<open>operator +=\<close>, the body of
  \<open>operator +\<close> and an expression \<open>a + b\<close> fail with the assertion message
  \<open>overflow\<close>, although the sum of the two sizes does not wrap around.
\<close>

theorem concat_empty_operand_fails:
  "size_m (objs st this) = 0 \<or> size_m (objs st str) = 0 \<Longrightarrow>
     op_plus_eq st this str = Inl (AssertFailed ''overflow'') \<and>
     op_plus st this str ret = Inl (AssertFailed ''overflow'') \<and>
     (String_copy st lhs this = Inr st1 \<and> lhs \<noteq> str \<longrightarrow>
        plus_expr st this str lhs ret = Inl (AssertFailed ''overflow'')) \<and>
     unat (size_m (objs st this)) + unat (size_m (objs st str)) < 2 ^ 32"
proof -
  assume h: "size_m (objs st this) = 0 \<or> size_m (objs st str) = 0"
  then have n: "\<not> (size_m (objs st this) < size_m (objs st this) + size_m (objs st str) \<and>
         size_m (objs st str) < size_m (objs st this) + size_m (objs st str))"
    by auto
  then have a: "op_plus_eq st this str = Inl (AssertFailed ''overflow'')"
    by (rule op_plus_eq_assert_fails)
  then have b: "op_plus st this str ret = Inl (AssertFailed ''overflow'')"
    by (simp add: op_plus_def)
  have c: "String_copy st lhs this = Inr st1 \<and> lhs \<noteq> str \<longrightarrow>
        plus_expr st this str lhs ret = Inl (AssertFailed ''overflow'')"
    using plus_expr_overflow_iff [of st lhs this st1 str ret] n by blast
  have "unat (size_m (objs st this)) < 2 ^ 32" "unat (size_m (objs st str)) < 2 ^ 32"
    using unsigned_less [of "size_m (objs st this)"] unsigned_less [of "size_m (objs st str)"]
    by simp_all
  with h have d: "unat (size_m (objs st this)) + unat (size_m (objs st str)) < 2 ^ 32"
    by auto
  from a b c d show ?thesis by simp
qed

theorem concat_empty_operand_fails_witness:
  "size_m (objs ex_state 7) = 0 \<and>
   String_copy ex_state 6 1 = Inr (ex_state\<lparr>objs := (objs ex_state)(6 := objs ex_state 1),
      cells := (cells ex_state)(2 \<mapsto> 2)\<rparr>) \<and>
   op_plus_eq ex_state 1 7 = Inl (AssertFailed ''overflow'') \<and>
   op_plus_eq ex_state 7 1 = Inl (AssertFailed ''overflow'') \<and>
   op_plus_eq ex_state 7 7 = Inl (AssertFailed ''overflow'') \<and>
   plus_expr ex_state 1 7 6 13 = Inl (AssertFailed ''overflow'')"
  using concat_empty_operand_fails [of ex_state 1 7 13 6 "ex_state\<lparr>objs := (objs ex_state)(6 := objs ex_state 1),
      cells := (cells ex_state)(2 \<mapsto> 2)\<rparr>"]
    concat_empty_operand_fails [of ex_state 7 1 13]
    concat_empty_operand_fails [of ex_state 7 7 13]
  by (simp add: ex_state_def view_def String_copy_def alias_from_def)

subsection \<open>C10: compare is antisymmetric\<close>




text \<open>The order of two bytes is the order of \<open>char\<close>: where \<open>char\<close> is signed, the
  byte \<open>0x80\<close> is below \<open>0x7F\<close>.\<close>

lemma lex_compare_signed_char:
  "lex_compare True [0x80] [0x7F] = - 1" "lex_compare False [0x80] [0x7F] = 1"
  by (simp_all add: char_less_def)

end
